theory Spec2Isabelle
  imports Main
begin

section \<open>JavaScript values and containers used by the handlers\<close>

text \<open>
  The chat server and the chat client are embedded as pure functions: a handler takes
  the state it reads, its payload, the clock readings it makes and whether its store
  operations succeed, and returns the new state together with the events it emits, in
  order.

  The server is the server file whose schema has \<open>deleted\<close>, \<open>edited\<close>, \<open>editTime\<close> and
  \<open>readBy\<close>; the client is the component \<open>Chat\<close> that keeps a map of typing timers. Two
  earlier handlers, which differ from these, are embedded beside them.

  \<^item> Strings are \<^typ>\<open>string\<close>, the bytes of the text in UTF-8. A payload is an object
    with string fields; a field that may be missing is a \<^typ>\<open>string option\<close>, \<open>None\<close>
    standing for \<open>undefined\<close> or \<open>null\<close>.
  \<^item> Times are milliseconds since the epoch, as \<open>Date.valueOf\<close> gives them.
  \<^item> Socket ids and message ids are natural numbers. An id that the store cannot cast
    makes \<open>findOne\<close> throw into the handler's \<open>catch\<close>, with the outcome of an id that
    is not found.
  \<^item> \<open>sanitizeHtml\<close> is a library function: the handlers take it as a parameter.
  \<^item> A handler runs as one step. Where it awaits the store, the flag \<open>db_ok\<close> says
    whether the store operations of that run succeed; a failure ends in the handler's
    \<open>catch\<close>, which logs. The \<open>message-read\<close> listener is given step by step as well,
    for two of its runs that overlap.
\<close>

definition js_or :: "string option \<Rightarrow> string \<Rightarrow> string" where
  \<comment> \<open>\<open>x || d\<close> on a string that may be missing: the empty string is falsy.\<close>
  "js_or x d = (case x of None \<Rightarrow> d | Some s \<Rightarrow> (if s = [] then d else s))"

definition white_space :: "string list" where
  \<comment> \<open>The code points \<open>String.prototype.trim\<close> removes (white space and line
      terminators), each as its UTF-8 bytes: U+0009 to U+000D, U+0020, U+00A0, U+1680,
      U+2000 to U+200A, U+2028, U+2029, U+202F, U+205F, U+3000 and U+FEFF.\<close>
  "white_space =
     [[CHR 0x09], [CHR 0x0A], [CHR 0x0B], [CHR 0x0C], [CHR 0x0D], [CHR 0x20],
      [CHR 0xC2, CHR 0xA0],
      [CHR 0xE1, CHR 0x9A, CHR 0x80],
      [CHR 0xE2, CHR 0x80, CHR 0x80], [CHR 0xE2, CHR 0x80, CHR 0x81],
      [CHR 0xE2, CHR 0x80, CHR 0x82], [CHR 0xE2, CHR 0x80, CHR 0x83],
      [CHR 0xE2, CHR 0x80, CHR 0x84], [CHR 0xE2, CHR 0x80, CHR 0x85],
      [CHR 0xE2, CHR 0x80, CHR 0x86], [CHR 0xE2, CHR 0x80, CHR 0x87],
      [CHR 0xE2, CHR 0x80, CHR 0x88], [CHR 0xE2, CHR 0x80, CHR 0x89],
      [CHR 0xE2, CHR 0x80, CHR 0x8A],
      [CHR 0xE2, CHR 0x80, CHR 0xA8], [CHR 0xE2, CHR 0x80, CHR 0xA9],
      [CHR 0xE2, CHR 0x80, CHR 0xAF],
      [CHR 0xE2, CHR 0x81, CHR 0x9F],
      [CHR 0xE3, CHR 0x80, CHR 0x80],
      [CHR 0xEF, CHR 0xBB, CHR 0xBF]]"

function strip :: "string list \<Rightarrow> string \<Rightarrow> string" where
  \<comment> \<open>Removes from the front of \<open>s\<close> every leading occurrence of one of \<open>ws\<close>.\<close>
  "strip ws s =
     (case find (\<lambda>w. w \<noteq> [] \<and> take (length w) s = w) ws of
        None \<Rightarrow> s
      | Some w \<Rightarrow> strip ws (drop (length w) s))"
  by pat_completeness auto
termination
proof (relation "measure (\<lambda>(ws, s). length s)")
  show "wf (measure (\<lambda>(ws, s). length s))" by simp
next
  fix ws :: "string list" and s w :: string
  assume "find (\<lambda>w. w \<noteq> [] \<and> take (length w) s = w) ws = Some w"
  then have "w \<noteq> []" and "take (length w) s = w" by (auto simp: find_Some_iff)
  then have "s \<noteq> []" by auto
  with \<open>w \<noteq> []\<close> show "((ws, drop (length w) s), (ws, s)) \<in> measure (\<lambda>(ws, s). length s)"
    by simp
qed

declare strip.simps [simp del]

definition trim :: "string \<Rightarrow> string" where
  \<comment> \<open>\<open>String.prototype.trim\<close>: white space is removed from both ends.\<close>
  "trim s = rev (strip (map rev white_space) (rev (strip white_space s)))"

text \<open>
  A JavaScript \<open>Map\<close> keeps its keys in insertion order, and \<open>set\<close> on a key it already
  holds replaces the value in place: an association list with at most one pair per key.
\<close>

fun Map_set :: "('k \<times> 'v) list \<Rightarrow> 'k \<Rightarrow> 'v \<Rightarrow> ('k \<times> 'v) list" where
  "Map_set [] k v = [(k, v)]"
| "Map_set ((k', v') # kvs) k v = (if k' = k then (k, v) # kvs else (k', v') # Map_set kvs k v)"

definition Map_get :: "('k \<times> 'v) list \<Rightarrow> 'k \<Rightarrow> 'v option" where
  "Map_get kvs k = map_of kvs k"

definition Map_delete :: "('k \<times> 'v) list \<Rightarrow> 'k \<Rightarrow> ('k \<times> 'v) list" where
  "Map_delete kvs k = filter (\<lambda>kv. fst kv \<noteq> k) kvs"

definition Map_values :: "('k \<times> 'v) list \<Rightarrow> 'v list" where
  "Map_values kvs = map snd kvs"

section \<open>The message store\<close>

text \<open>
  A document of the \<open>Message\<close> collection, with the fields of \<open>messageSchema\<close>:
  \<open>_id\<close>, \<open>user\<close>, \<open>text\<close>, \<open>time\<close>, \<open>deleted\<close>, \<open>edited\<close>, \<open>editTime\<close>, \<open>readBy\<close>.
\<close>

record message =
  m_id :: nat
  m_user :: string
  m_text :: string
  m_time :: int
  m_deleted :: bool
  m_edited :: bool
  m_editTime :: "int option"
  m_readBy :: "string list"

datatype store_error = ValidationError | StoreUnavailable

text \<open>
  The \<open>time\<close> field of a \<open>message\<close> payload, by how
  \<open>msg.time ? new Date(msg.time) : new Date()\<close> reads it:
  \<^item> \<open>TimeAbsent\<close>: the field is \<open>undefined\<close> or \<open>null\<close>;
  \<^item> \<open>TimeFalsy\<close>: it is present and falsy (the number \<open>0\<close>, the empty string);
  \<^item> \<open>TimeValid t\<close>: it is truthy and \<open>new Date\<close> of it is the valid date \<open>t\<close>
    (an ISO string, as the client sends, or a non-zero number of milliseconds);
  \<^item> \<open>TimeInvalid\<close>: it is truthy and \<open>new Date\<close> of it is \<open>Invalid Date\<close>
    (a string such as \<open>not-a-date\<close>).
\<close>

datatype time_field = TimeAbsent | TimeFalsy | TimeValid int | TimeInvalid

fun request_time :: "time_field \<Rightarrow> int \<Rightarrow> int option" where
  \<comment> \<open>\<open>msg.time ? new Date(msg.time) : new Date()\<close>; \<open>None\<close> is \<open>Invalid Date\<close>.\<close>
  "request_time TimeAbsent now = Some now"
| "request_time TimeFalsy now = Some now"
| "request_time (TimeValid t) now = Some t"
| "request_time TimeInvalid now = None"

type_synonym socket_id = nat

record server =
  onlineUsers :: "(socket_id \<times> string) list"
  collection :: "message list"
  next_id :: nat

definition server_init :: server where
  "server_init = \<lparr>onlineUsers = [], collection = [], next_id = 0\<rparr>"

definition new_doc :: "server \<Rightarrow> string \<Rightarrow> string \<Rightarrow> int \<Rightarrow> message" where
  \<comment> \<open>The document \<open>Message.create\<close> stores: a fresh \<open>_id\<close> drawn from a counter, the
      three given fields, and the schema's defaults for the rest.\<close>
  "new_doc s u t ms =
     \<lparr>m_id = next_id s, m_user = u, m_text = t, m_time = ms, m_deleted = False,
      m_edited = False, m_editTime = None, m_readBy = []\<rparr>"

definition Message_create ::
  "server \<Rightarrow> string \<Rightarrow> string \<Rightarrow> int option \<Rightarrow> bool \<Rightarrow> store_error + (server \<times> message)" where
  \<comment> \<open>\<open>Message.create({user, text, time})\<close>. The schema makes \<open>user\<close> and \<open>text\<close>
      required strings, which the empty string does not satisfy, and casts \<open>time\<close> to a
      date, which \<open>Invalid Date\<close> fails; a document that passes validation is written
      unless the store is unavailable.\<close>
  "Message_create s u t tm db_ok =
     (if u = [] \<or> t = [] then Inl ValidationError
      else (case tm of
              None \<Rightarrow> Inl ValidationError
            | Some ms \<Rightarrow>
                (if \<not> db_ok then Inl StoreUnavailable
                 else Inr (s\<lparr>collection := collection s @ [new_doc s u t ms],
                            next_id := Suc (next_id s)\<rparr>,
                           new_doc s u t ms))))"

definition findOne :: "message list \<Rightarrow> nat \<Rightarrow> message option" where
  \<comment> \<open>\<open>Message.findOne({ _id: messageId })\<close>\<close>
  "findOne docs i = find (\<lambda>m. m_id m = i) docs"

fun updateOne :: "message list \<Rightarrow> nat \<Rightarrow> (message \<Rightarrow> message) \<Rightarrow> message list" where
  \<comment> \<open>\<open>Message.updateOne({ _id: messageId }, update)\<close>: the first match is updated.\<close>
  "updateOne [] i f = []"
| "updateOne (m # ms) i f = (if m_id m = i then f m # ms else m # updateOne ms i f)"

definition listActive :: "nat \<Rightarrow> message list \<Rightarrow> message list" where
  \<comment> \<open>\<open>Message.find({ deleted: false }).sort({ time: 1 }).limit(limit)\<close>\<close>
  "listActive limit docs = take limit (sort_key m_time (filter (\<lambda>m. \<not> m_deleted m) docs))"

definition addToSet :: "string \<Rightarrow> string list \<Rightarrow> string list" where
  \<comment> \<open>\<open>$addToSet\<close>\<close>
  "addToSet x xs = (if x \<in> set xs then xs else xs @ [x])"

section \<open>Events the server emits\<close>

datatype audience =
    ToAll                \<comment> \<open>\<open>io.emit\<close>: every connected client\<close>
  | ToOthers socket_id   \<comment> \<open>\<open>socket.broadcast.emit\<close>: every connected client but this one\<close>
  | ToSocket socket_id   \<comment> \<open>\<open>socket.emit\<close>: this client only\<close>

datatype out_event =
    MessageHistory "message list"
  | RoomUsers "string list"
  | MessageOut message
  | DeleteMessageOut nat
  | EditMessageOut nat string int
  | MessageReadOut nat string
  | TypingOut string int
  | TypingRawOut "string option"

type_synonym emission = "audience \<times> out_event"

fun recipients :: "socket_id list \<Rightarrow> audience \<Rightarrow> socket_id list" where
  "recipients connected ToAll = connected"
| "recipients connected (ToOthers c) = filter (\<lambda>d. d \<noteq> c) connected"
| "recipients connected (ToSocket c) = filter (\<lambda>d. d = c) connected"

fun is_typing :: "emission \<Rightarrow> bool" where
  "is_typing (_, TypingOut _ _) = True"
| "is_typing (_, TypingRawOut _) = True"
| "is_typing _ = False"

section \<open>The server's handlers\<close>

record msg_payload =
  msg_user :: "string option"
  msg_text :: "string option"
  msg_time :: time_field

record edit_payload =
  messageId :: nat
  newText :: string

definition nameOf :: "server \<Rightarrow> socket_id \<Rightarrow> string" where
  \<comment> \<open>\<open>onlineUsers.get(socket.id) || 'Anonymous'\<close>\<close>
  "nameOf s c = js_or (Map_get (onlineUsers s) c) ''Anonymous''"

definition on_connection :: "server \<Rightarrow> socket_id \<Rightarrow> bool \<Rightarrow> server \<times> emission list" where
  \<comment> \<open>\<open>io.on('connection')\<close>: the history query may fail, which is logged and skipped.\<close>
  "on_connection s c db_ok =
     (let s1 = s\<lparr>onlineUsers := Map_set (onlineUsers s) c ''Anonymous''\<rparr>
      in (s1,
          (if db_ok then [(ToSocket c, MessageHistory (listActive 500 (collection s1)))] else [])
          @ [(ToSocket c, RoomUsers (Map_values (onlineUsers s1)))]))"

definition on_set_username ::
  "(string \<Rightarrow> string) \<Rightarrow> server \<Rightarrow> socket_id \<Rightarrow> string option \<Rightarrow> server \<times> emission list" where
  "on_set_username sanitizeHtml s c username =
     (let cleanName = sanitizeHtml (js_or (map_option trim username) ''Anonymous'');
          s1 = s\<lparr>onlineUsers := Map_set (onlineUsers s) c cleanName\<rparr>
      in (s1, [(ToAll, RoomUsers (Map_values (onlineUsers s1)))]))"

definition clean_user :: "(string \<Rightarrow> string) \<Rightarrow> msg_payload \<Rightarrow> string" where
  \<comment> \<open>\<open>sanitizeHtml((msg.user || 'Anonymous').trim() || 'Anonymous', { allowedTags: [] })\<close>\<close>
  "clean_user sanitizeHtml msg =
     sanitizeHtml (js_or (Some (trim (js_or (msg_user msg) ''Anonymous''))) ''Anonymous'')"

definition clean_text :: "(string \<Rightarrow> string) \<Rightarrow> msg_payload \<Rightarrow> string" where
  \<comment> \<open>\<open>sanitizeHtml(msg.text || '', { allowedTags: [] })\<close>\<close>
  "clean_text sanitizeHtml msg = sanitizeHtml (js_or (msg_text msg) [])"

definition on_message ::
  "(string \<Rightarrow> string) \<Rightarrow> server \<Rightarrow> socket_id \<Rightarrow> msg_payload \<Rightarrow> int \<Rightarrow> bool
     \<Rightarrow> server \<times> emission list" where
  "on_message sanitizeHtml s c msg now db_ok =
     (let username = clean_user sanitizeHtml msg;
          s1 = s\<lparr>onlineUsers := Map_set (onlineUsers s) c username\<rparr>
      in (case Message_create s1 username (clean_text sanitizeHtml msg)
                 (request_time (msg_time msg) now) db_ok of
            Inl err \<Rightarrow> (s1, [])
          | Inr (s2, doc) \<Rightarrow>
              (s2, [(ToAll, MessageOut doc), (ToAll, RoomUsers (Map_values (onlineUsers s2)))])))"

definition on_delete_message ::
  "server \<Rightarrow> socket_id \<Rightarrow> nat \<Rightarrow> bool \<Rightarrow> server \<times> emission list" where
  "on_delete_message s c i db_ok =
     (if \<not> db_ok then (s, [])
      else (let username = nameOf s c
            in (case findOne (collection s) i of
                  None \<Rightarrow> (s, [])
                | Some message \<Rightarrow>
                    (if m_user message = username
                     then (s\<lparr>collection :=
                                updateOne (collection s) i (\<lambda>m. m\<lparr>m_deleted := True\<rparr>)\<rparr>,
                           [(ToAll, DeleteMessageOut i)])
                     else (s, [])))))"

definition on_edit_message ::
  "(string \<Rightarrow> string) \<Rightarrow> server \<Rightarrow> socket_id \<Rightarrow> edit_payload option \<Rightarrow> int \<Rightarrow> int \<Rightarrow> int \<Rightarrow> bool
     \<Rightarrow> server \<times> emission list" where
  \<comment> \<open>The handler reads the clock three times: \<open>Date.now()\<close> for the limit, \<open>new Date()\<close>
      for the stored \<open>editTime\<close> and \<open>new Date()\<close> for the event. A missing payload makes
      the destructuring throw, which the handler catches.\<close>
  "on_edit_message sanitizeHtml s c data now now_stored now_emitted db_ok =
     (case data of
        None \<Rightarrow> (s, [])
      | Some d \<Rightarrow>
          (if \<not> db_ok then (s, [])
           else (let username = nameOf s c
                 in (case findOne (collection s) (messageId d) of
                       None \<Rightarrow> (s, [])
                     | Some message \<Rightarrow>
                         (if m_user message = username
                          then (let fiveMinutesAgo = now - 5 * 60 * 1000
                                in (if (case m_editTime message of
                                          None \<Rightarrow> True
                                        | Some t \<Rightarrow> t < fiveMinutesAgo)
                                    then (s\<lparr>collection :=
                                               updateOne (collection s) (messageId d)
                                                 (\<lambda>m. m\<lparr>m_text := sanitizeHtml (newText d),
                                                         m_edited := True,
                                                         m_editTime := Some now_stored\<rparr>)\<rparr>,
                                          [(ToAll, EditMessageOut (messageId d) (newText d) now_emitted)])
                                    else (s, [])))
                          else (s, []))))))"

text \<open>
  The \<open>message-read\<close> listener awaits the store twice: it asks for the message, and when
  the store has answered it tests \<open>readBy\<close> and asks for the update, and when the store
  has answered again it emits. Other listeners can run while it waits, so these are
  three steps; what the update writes and what is emitted were decided by the test.
  \<open>on_message_read\<close> is a run of the listener with nothing in between.
\<close>

definition message_read_test :: "server \<Rightarrow> socket_id \<Rightarrow> nat \<Rightarrow> (nat \<times> string) option" where
  \<comment> \<open>Up to the \<open>if\<close>: the id and the reader's name when the listener goes on to update,
      \<open>None\<close> when it stops (message not found, or reader already listed).\<close>
  "message_read_test s c i =
     (let username = nameOf s c
      in (case findOne (collection s) i of
            None \<Rightarrow> None
          | Some message \<Rightarrow>
              (if username \<notin> set (m_readBy message) then Some (i, username) else None)))"

definition message_read_update :: "server \<Rightarrow> nat \<times> string \<Rightarrow> server" where
  \<comment> \<open>\<open>updateOne\<close> with \<open>$addToSet\<close>, on the store as it is by then.\<close>
  "message_read_update s p =
     s\<lparr>collection :=
         updateOne (collection s) (fst p) (\<lambda>m. m\<lparr>m_readBy := addToSet (snd p) (m_readBy m)\<rparr>)\<rparr>"

definition message_read_emit :: "nat \<times> string \<Rightarrow> emission list" where
  "message_read_emit p = [(ToAll, MessageReadOut (fst p) (snd p))]"

definition on_message_read ::
  "server \<Rightarrow> socket_id \<Rightarrow> nat \<Rightarrow> bool \<Rightarrow> server \<times> emission list" where
  "on_message_read s c i db_ok =
     (if \<not> db_ok then (s, [])
      else (case message_read_test s c i of
              None \<Rightarrow> (s, [])
            | Some p \<Rightarrow> (message_read_update s p, message_read_emit p)))"

definition on_typing ::
  "(string \<Rightarrow> string) \<Rightarrow> server \<Rightarrow> socket_id \<Rightarrow> string option \<Rightarrow> int \<Rightarrow> server \<times> emission list" where
  \<comment> \<open>The payload is given by its \<open>user\<close> field.\<close>
  "on_typing sanitizeHtml s c payload_user now =
     (let who = sanitizeHtml (js_or (Some (trim (js_or payload_user ''Someone''))) ''Someone'');
          s1 = s\<lparr>onlineUsers := Map_set (onlineUsers s) c who\<rparr>
      in (s1, [(ToOthers c, TypingOut who now), (ToAll, RoomUsers (Map_values (onlineUsers s1)))]))"

definition on_disconnect :: "server \<Rightarrow> socket_id \<Rightarrow> server \<times> emission list" where
  "on_disconnect s c =
     (let s1 = s\<lparr>onlineUsers := Map_delete (onlineUsers s) c\<rparr>
      in (s1, [(ToAll, RoomUsers (Map_values (onlineUsers s1)))]))"

definition get_messages :: "server \<Rightarrow> bool \<Rightarrow> store_error + message list" where
  \<comment> \<open>\<open>app.get('/messages')\<close>: the list as JSON, or status 500.\<close>
  "get_messages s db_ok = (if db_ok then Inr (listActive 500 (collection s)) else Inl StoreUnavailable)"

text \<open>One inbound event, with what the environment decides for it.\<close>

datatype call =
    Connection socket_id bool
  | SetUsername socket_id "string option"
  | SendMessage socket_id msg_payload int bool
  | DeleteMessage socket_id nat bool
  | EditMessage socket_id "edit_payload option" int int int bool
  | MessageRead socket_id nat bool
  | Typing socket_id "string option" int
  | Disconnect socket_id

fun step :: "(string \<Rightarrow> string) \<Rightarrow> server \<Rightarrow> call \<Rightarrow> server \<times> emission list" where
  "step san s (Connection c db_ok) = on_connection s c db_ok"
| "step san s (SetUsername c username) = on_set_username san s c username"
| "step san s (SendMessage c msg now db_ok) = on_message san s c msg now db_ok"
| "step san s (DeleteMessage c i db_ok) = on_delete_message s c i db_ok"
| "step san s (EditMessage c data now now_stored now_emitted db_ok) =
     on_edit_message san s c data now now_stored now_emitted db_ok"
| "step san s (MessageRead c i db_ok) = on_message_read s c i db_ok"
| "step san s (Typing c payload_user now) = on_typing san s c payload_user now"
| "step san s (Disconnect c) = on_disconnect s c"

fun run :: "(string \<Rightarrow> string) \<Rightarrow> server \<Rightarrow> call list \<Rightarrow> server \<times> emission list" where
  "run san s [] = (s, [])"
| "run san s (e # es) =
     (let (s1, out1) = step san s e; (s2, out2) = run san s1 es in (s2, out1 @ out2))"

subsection \<open>Two read receipts in flight\<close>

text \<open>
  Two \<open>message-read\<close> events, the first to arrive and the second, each handled by a run of
  the listener; the store is available. A run has arrived, or awaits its update, or has
  updated and is about to emit, or has finished. A schedule says which run takes its
  next step: \<open>True\<close> for the first, \<open>False\<close> for the second. No step of these runs
  changes the registry of names, so the name a run reads on arrival is the name its
  test reads.
\<close>

datatype read_run =
  Arrived socket_id nat | Updating "nat \<times> string" | Emitting "nat \<times> string" | Finished

record race =
  r_server :: server
  r_out :: "emission list"
  r_first :: read_run
  r_second :: read_run

fun advance :: "server \<Rightarrow> read_run \<Rightarrow> server \<times> emission list \<times> read_run" where
  "advance s (Arrived c i) =
     (case message_read_test s c i of
        None \<Rightarrow> (s, [], Finished)
      | Some p \<Rightarrow> (s, [], Updating p))"
| "advance s (Updating p) = (message_read_update s p, [], Emitting p)"
| "advance s (Emitting p) = (s, message_read_emit p, Finished)"
| "advance s Finished = (s, [], Finished)"

definition advance_first :: "race \<Rightarrow> race" where
  "advance_first r =
     (case advance (r_server r) (r_first r) of
        (s, out, next) \<Rightarrow> r\<lparr>r_server := s, r_out := r_out r @ out, r_first := next\<rparr>)"

definition advance_second :: "race \<Rightarrow> race" where
  "advance_second r =
     (case advance (r_server r) (r_second r) of
        (s, out, next) \<Rightarrow> r\<lparr>r_server := s, r_out := r_out r @ out, r_second := next\<rparr>)"

definition two_reads :: "server \<Rightarrow> socket_id \<Rightarrow> socket_id \<Rightarrow> nat \<Rightarrow> race" where
  "two_reads s c d i = \<lparr>r_server = s, r_out = [], r_first = Arrived c i, r_second = Arrived d i\<rparr>"

definition interleave :: "bool list \<Rightarrow> race \<Rightarrow> race" where
  "interleave schedule r =
     fold (\<lambda>first. if first then advance_first else advance_second) schedule r"

subsection \<open>An earlier server: two listeners on the typing event\<close>

text \<open>
  The server file that first relays typing events registers two listeners for
  \<open>typing\<close> on every socket, one after the other. An event emitter calls every listener
  of an event, in the order of registration, with the event's payload.
\<close>

definition typing_listener_1 :: "socket_id \<Rightarrow> string option \<Rightarrow> int \<Rightarrow> emission list" where
  \<comment> \<open>\<open>socket.broadcast.emit('typing', { user: who, at: Date.now() })\<close>\<close>
  "typing_listener_1 c payload_user now =
     [(ToOthers c, TypingOut (js_or (Some (trim (js_or payload_user ''Someone''))) ''Someone'') now)]"

definition typing_listener_2 :: "socket_id \<Rightarrow> string option \<Rightarrow> emission list" where
  \<comment> \<open>\<open>socket.broadcast.emit('typing', username)\<close>: the payload as it came.\<close>
  "typing_listener_2 c payload_user = [(ToOthers c, TypingRawOut payload_user)]"

definition typing_listeners :: "socket_id \<Rightarrow> string option \<Rightarrow> int \<Rightarrow> emission list" where
  "typing_listeners c payload_user now =
     typing_listener_1 c payload_user now @ typing_listener_2 c payload_user"

section \<open>The client\<close>

text \<open>
  The component \<open>Chat\<close> in the version that keeps one timer per typing user. Its socket
  handlers are created once, by the effect that runs at mount (its dependency list is
  empty), so the state variables they mention are the values of the first render: a
  \<open>closure\<close> holds them. State that the handlers change through a setter or a ref is in
  \<open>chat\<close>, with the browser's table of pending timeouts.
\<close>

record closure =
  c_isAtBottom :: bool
  c_name :: string

record timeout =
  t_id :: nat
  t_due :: int
  t_who :: string

record chat =
  mounted :: bool
  scrollRef :: bool
  messages :: "message list"
  name :: string
  isAtBottom :: bool
  unseenCount :: nat
  typingUsers :: "string list"
  typingTimers :: "(string \<times> nat) list"
  timeouts :: "timeout list"
  next_timeout :: nat

definition chat_init :: chat where
  \<comment> \<open>The \<open>useState\<close> and \<open>useRef\<close> initial values, once the component is mounted and
      its scroll box is attached.\<close>
  "chat_init = \<lparr>mounted = True, scrollRef = True, messages = [], name = [], isAtBottom = True,
                 unseenCount = 0, typingUsers = [], typingTimers = [], timeouts = [],
                 next_timeout = 0\<rparr>"

definition mount_closure :: closure where
  "mount_closure = \<lparr>c_isAtBottom = isAtBottom chat_init, c_name = name chat_init\<rparr>"

definition Set_add :: "'a \<Rightarrow> 'a list \<Rightarrow> 'a list" where
  \<comment> \<open>\<open>Set.add\<close>, the set kept in insertion order\<close>
  "Set_add x xs = (if x \<in> set xs then xs else xs @ [x])"

definition Set_delete :: "'a \<Rightarrow> 'a list \<Rightarrow> 'a list" where
  "Set_delete x xs = filter (\<lambda>y. y \<noteq> x) xs"

definition chat_on_message_history :: "message list option \<Rightarrow> chat \<Rightarrow> chat" where
  \<comment> \<open>\<open>socket.on('message-history')\<close>, with the animation-frame callback it requests.\<close>
  "chat_on_message_history history st =
     (if \<not> mounted st then st
      else (let st1 = st\<lparr>messages := (case history of None \<Rightarrow> [] | Some h \<Rightarrow> h)\<rparr>
            in (if scrollRef st1 then st1\<lparr>isAtBottom := True, unseenCount := 0\<rparr> else st1)))"

definition chat_on_message :: "closure \<Rightarrow> message \<Rightarrow> chat \<Rightarrow> chat" where
  \<comment> \<open>\<open>socket.on('message')\<close>: \<open>isAtBottom\<close> is the handler's captured variable.\<close>
  "chat_on_message clo msg st =
     (if \<not> mounted st then st
      else (let st1 = st\<lparr>messages := messages st @ [msg]\<rparr>
            in (if \<not> c_isAtBottom clo then st1\<lparr>unseenCount := unseenCount st1 + 1\<rparr> else st1)))"

definition autoscroll_effect :: "chat \<Rightarrow> chat" where
  \<comment> \<open>The effect on \<open>[messages, isAtBottom]\<close>, which runs after a render that changed
      either and so sees the current state.\<close>
  "autoscroll_effect st =
     (if \<not> scrollRef st then st
      else if isAtBottom st then st\<lparr>unseenCount := 0\<rparr>
      else st)"

definition handleScroll :: "int \<Rightarrow> int \<Rightarrow> int \<Rightarrow> chat \<Rightarrow> chat" where
  "handleScroll scrollHeight scrollTop clientHeight st =
     (let threshold = 60;
          atBottom = (scrollHeight - scrollTop - clientHeight < threshold);
          st1 = (if atBottom \<noteq> isAtBottom st then st\<lparr>isAtBottom := atBottom\<rparr> else st)
      in (if atBottom then st1\<lparr>unseenCount := 0\<rparr> else st1))"

definition typing_who :: "string option \<Rightarrow> string" where
  \<comment> \<open>\<open>(payload.user || 'Someone').trim() || 'Someone'\<close>\<close>
  "typing_who payload_user = js_or (Some (trim (js_or payload_user ''Someone''))) ''Someone''"

definition self_name :: "closure \<Rightarrow> string" where
  \<comment> \<open>\<open>name || 'Anonymous'\<close>\<close>
  "self_name clo = js_or (Some (c_name clo)) ''Anonymous''"

definition clearTimeout :: "nat \<Rightarrow> chat \<Rightarrow> chat" where
  "clearTimeout t st = st\<lparr>timeouts := filter (\<lambda>p. t_id p \<noteq> t) (timeouts st)\<rparr>"

definition setTimeout :: "string \<Rightarrow> int \<Rightarrow> int \<Rightarrow> chat \<Rightarrow> nat \<times> chat" where
  \<comment> \<open>\<open>setTimeout(callback, delay)\<close> at time \<open>now\<close>, for the callback that clears \<open>who\<close>:
      a pending timeout with a fresh id, due at \<open>now + delay\<close>.\<close>
  "setTimeout who delay now st =
     (next_timeout st,
      st\<lparr>timeouts := timeouts st @ [\<lparr>t_id = next_timeout st, t_due = now + delay, t_who = who\<rparr>],
         next_timeout := Suc (next_timeout st)\<rparr>)"

definition chat_on_typing :: "closure \<Rightarrow> string option \<Rightarrow> int \<Rightarrow> chat \<Rightarrow> chat" where
  \<comment> \<open>\<open>socket.on('typing')\<close>, the payload given by its \<open>user\<close> field.\<close>
  "chat_on_typing clo payload_user now st =
     (if \<not> mounted st then st
      else (let who = typing_who payload_user
            in (if who = self_name clo then st
                else (let st1 = st\<lparr>typingUsers := Set_add who (typingUsers st)\<rparr>;
                          st2 = (case Map_get (typingTimers st1) who of
                                   None \<Rightarrow> st1
                                 | Some t \<Rightarrow> clearTimeout t st1);
                          (t, st3) = setTimeout who 2000 now st2
                      in st3\<lparr>typingTimers := Map_set (typingTimers st3) who t\<rparr>))))"

definition typing_expired :: "string \<Rightarrow> chat \<Rightarrow> chat" where
  \<comment> \<open>The timeout's callback.\<close>
  "typing_expired who st =
     st\<lparr>typingUsers := Set_delete who (typingUsers st),
        typingTimers := Map_delete (typingTimers st) who\<rparr>"

definition run_timeouts :: "int \<Rightarrow> chat \<Rightarrow> chat" where
  \<comment> \<open>The browser at time \<open>T\<close>: every pending timeout due by then has fired, the earliest
      first.\<close>
  "run_timeouts T st =
     fold (\<lambda>p. typing_expired (t_who p))
       (sort_key t_due (filter (\<lambda>p. t_due p \<le> T) (timeouts st)))
       (st\<lparr>timeouts := filter (\<lambda>p. \<not> t_due p \<le> T) (timeouts st)\<rparr>)"

definition typing_active :: "chat \<Rightarrow> int \<Rightarrow> string \<Rightarrow> bool" where
  \<comment> \<open>\<open>who\<close> is among the typing users the component shows at time \<open>T\<close>.\<close>
  "typing_active st T who = (who \<in> set (typingUsers (run_timeouts T st)))"

fun chat_typing_run :: "closure \<Rightarrow> chat \<Rightarrow> (int \<times> string option) list \<Rightarrow> chat" where
  \<comment> \<open>Typing events, each with its arrival time: the timeouts due by then fire first.\<close>
  "chat_typing_run clo st [] = st"
| "chat_typing_run clo st ((t, u) # evs) =
     chat_typing_run clo (chat_on_typing clo u t (run_timeouts t st)) evs"

subsection \<open>An earlier client: timeouts that are never cancelled\<close>

definition chat_on_typing_uncancelled :: "string option \<Rightarrow> int \<Rightarrow> chat \<Rightarrow> chat" where
  \<comment> \<open>\<open>socket.on('typing')\<close> of the component without the timer map: every event adds
      the user and starts a timeout of its own, whose callback deletes the user. The
      timer map of \<open>chat\<close> stays empty here.\<close>
  "chat_on_typing_uncancelled payload_user now st =
     (if \<not> mounted st then st
      else (let who = trim (js_or payload_user ''Someone'');
                st1 = st\<lparr>typingUsers := Set_add who (typingUsers st)\<rparr>;
                (t, st2) = setTimeout who 2000 now st1
            in st2))"

section \<open>Invariants and auxiliary notions\<close>

definition wf_store :: "server \<Rightarrow> bool" where
  \<comment> \<open>What the store guarantees of its documents: ids are unique and were drawn from the
      counter, and no reader is listed twice.\<close>
  "wf_store s =
     (distinct (map m_id (collection s)) \<and>
      (\<forall>m \<in> set (collection s). m_id m < next_id s \<and> distinct (m_readBy m)))"

definition tombstoned :: "message list \<Rightarrow> nat \<Rightarrow> bool" where
  "tombstoned docs X =
     ((\<exists>m \<in> set docs. m_id m = X) \<and> (\<forall>m \<in> set docs. m_id m = X \<longrightarrow> m_deleted m))"

definition keeps :: "(message \<Rightarrow> message) \<Rightarrow> bool" where
  \<comment> \<open>An update that keeps the id, never clears \<open>deleted\<close> and lists no reader twice.\<close>
  "keeps f = (\<forall>m. m_id (f m) = m_id m \<and> (m_deleted m \<longrightarrow> m_deleted (f m)) \<and>
                  (distinct (m_readBy m) \<longrightarrow> distinct (m_readBy (f m))))"

datatype store_change = Unchanged | Updated nat "message \<Rightarrow> message" | Appended message

fun changed :: "server \<Rightarrow> store_change \<Rightarrow> server \<Rightarrow> bool" where
  "changed s Unchanged s' = (collection s' = collection s \<and> next_id s' = next_id s)"
| "changed s (Updated i f) s' =
     (keeps f \<and> collection s' = updateOne (collection s) i f \<and> next_id s' = next_id s)"
| "changed s (Appended doc) s' =
     (m_id doc = next_id s \<and> \<not> m_deleted doc \<and> m_readBy doc = [] \<and>
      collection s' = collection s @ [doc] \<and> next_id s' = Suc (next_id s))"




definition timers_wf :: "chat \<Rightarrow> bool" where
  \<comment> \<open>The pending timeouts and the timer map agree: timeout ids are unique and were drawn
      from the counter, every pending timeout is the one the map holds for its user, and
      every user in the map has a pending timeout.\<close>
  "timers_wf st =
     (distinct (map t_id (timeouts st)) \<and>
      (\<forall>p \<in> set (timeouts st).
         Map_get (typingTimers st) (t_who p) = Some (t_id p) \<and> t_id p < next_timeout st) \<and>
      (\<forall>kv \<in> set (typingTimers st). fst kv \<in> t_who ` set (timeouts st)))"

definition last_typing :: "string \<Rightarrow> (int \<times> string option) list \<Rightarrow> int option" where
  \<comment> \<open>The arrival time of the most recent typing event for \<open>who\<close>, if there is one.\<close>
  "last_typing who evs =
     (case filter (\<lambda>e. typing_who (snd e) = who) evs of
        [] \<Rightarrow> None
      | e # es \<Rightarrow> Some (fst (last (e # es))))"

definition tracked :: "chat \<Rightarrow> string \<Rightarrow> int option \<Rightarrow> int \<Rightarrow> bool" where
  \<comment> \<open>\<open>who\<close> is shown with a pending timeout due at the deadline, or is not shown and the
      deadline, if any, has passed by \<open>T\<close>.\<close>
  "tracked st who dl T =
     (case dl of
        None \<Rightarrow> who \<notin> set (typingUsers st)
      | Some D \<Rightarrow>
          (if who \<in> set (typingUsers st)
           then (\<exists>p \<in> set (timeouts st). t_who p = who \<and> t_due p = D)
           else D \<le> T))"

fun deadline :: "string \<Rightarrow> int option \<Rightarrow> (int \<times> string option) list \<Rightarrow> int option" where
  "deadline who dl [] = dl"
| "deadline who dl ((t, u) # evs) =
     deadline who (if typing_who u = who then Some (t + 2000) else dl) evs"

section \<open>The specification's wording, for comparison\<close>

definition spec_rate_limited :: "int option \<Rightarrow> int \<Rightarrow> bool" where
  \<comment> \<open>"rate-limited if \<open>lastEditAt\<close> is non-null and \<open>now - lastEditAt < 5 minutes\<close>"\<close>
  "spec_rate_limited lastEditAt now =
     (case lastEditAt of None \<Rightarrow> False | Some t \<Rightarrow> now - t < 5 * 60 * 1000)"

definition spec_connection_sends :: "server \<Rightarrow> socket_id \<Rightarrow> emission list" where
  \<comment> \<open>"send roster snapshot to the new connection only, send message-history snapshot to
      the new connection only, then broadcast the updated roster to everyone"\<close>
  "spec_connection_sends s c =
     (let roster = Map_values (Map_set (onlineUsers s) c ''Anonymous'')
      in [(ToSocket c, RoomUsers roster),
          (ToSocket c, MessageHistory (listActive 500 (collection s))),
          (ToAll, RoomUsers roster)])"

section \<open>Concrete rooms and payloads\<close>

definition tag_dropping_sanitizer :: "string \<Rightarrow> string" where
  \<comment> \<open>A sanitizer that allows no tags, on the strings used below: the name \<open><b></b>\<close>, which
      is a tag pair around nothing, comes out empty, and text without tags is kept.\<close>
  "tag_dropping_sanitizer x = (if x = ''<b></b>'' then [] else x)"

definition anonymous_room_calls :: "call list" where
  \<comment> \<open>Client 1 connects and sends "hi" without a name; client 2 connects and sets the
      name \<open><b></b>\<close>.\<close>
  "anonymous_room_calls =
     [Connection 1 True,
      SendMessage 1 \<lparr>msg_user = None, msg_text = Some ''hi'', msg_time = TimeAbsent\<rparr> 1000 True,
      Connection 2 True,
      SetUsername 2 (Some ''<b></b>'')]"

definition anonymous_room :: server where
  "anonymous_room = fst (run tag_dropping_sanitizer server_init anonymous_room_calls)"

definition alice_room :: server where
  "alice_room =
     \<lparr>onlineUsers = [(1, ''Alice''), (2, ''Bob'')],
      collection = [\<lparr>m_id = 0, m_user = ''Alice'', m_text = ''hi'', m_time = 1000,
                      m_deleted = False, m_edited = False, m_editTime = None, m_readBy = []\<rparr>],
      next_id = 1\<rparr>"

definition edited_room :: server where
  \<comment> \<open>Alice's message was last edited at time 0.\<close>
  "edited_room =
     \<lparr>onlineUsers = [(1, ''Alice''), (2, ''Bob'')],
      collection = [\<lparr>m_id = 0, m_user = ''Alice'', m_text = ''hi'', m_time = 0,
                      m_deleted = False, m_edited = True, m_editTime = Some 0, m_readBy = []\<rparr>],
      next_id = 1\<rparr>"

definition late_message :: "time_field \<Rightarrow> msg_payload" where
  "late_message tf = \<lparr>msg_user = Some '' Bob '', msg_text = Some ''late'', msg_time = tf\<rparr>"

definition blank_message :: "string option \<Rightarrow> msg_payload" where
  "blank_message txt = \<lparr>msg_user = Some ''Bob'', msg_text = txt, msg_time = TimeAbsent\<rparr>"

definition after_delete_calls :: "call list" where
  "after_delete_calls =
     [EditMessage 1 (Some \<lparr>messageId = 0, newText = ''hello''\<rparr>) 9000 9001 9002 True,
      MessageRead 2 0 True,
      SendMessage 2 \<lparr>msg_user = Some ''Bob'', msg_text = Some ''yo'', msg_time = TimeValid 500\<rparr>
        9500 True,
      DeleteMessage 2 0 True,
      Connection 3 True]"

definition bob_typed_twice :: chat where
  \<comment> \<open>The component without the timer map, after typing events for \<open>bob\<close> at 0 and at
      1000.\<close>
  "bob_typed_twice =
     chat_on_typing_uncancelled (Some ''bob'') 1000
       (run_timeouts 1000 (chat_on_typing_uncancelled (Some ''bob'') 0 chat_init))"

definition scrolled_up :: chat where
  \<comment> \<open>The user has scrolled to the top of a box 400 pixels high with 1000 pixels of
      messages.\<close>
  "scrolled_up = handleScroll 1000 0 400 chat_init"

definition three_messages :: "message list" where
  "three_messages =
     [\<lparr>m_id = 0, m_user = ''Alice'', m_text = ''one'', m_time = 1000, m_deleted = False,
        m_edited = False, m_editTime = None, m_readBy = []\<rparr>,
      \<lparr>m_id = 1, m_user = ''Alice'', m_text = ''two'', m_time = 2000, m_deleted = False,
        m_edited = False, m_editTime = None, m_readBy = []\<rparr>,
      \<lparr>m_id = 2, m_user = ''Alice'', m_text = ''three'', m_time = 3000, m_deleted = False,
        m_edited = False, m_editTime = None, m_readBy = []\<rparr>]"

section \<open>Facts about the store and the maps\<close>

lemma findOne_SomeD: "findOne docs i = Some m \<Longrightarrow> m \<in> set docs \<and> m_id m = i"
  by (induction docs) (auto simp: findOne_def split: if_splits)

lemma findOne_None_iff: "findOne docs i = None \<longleftrightarrow> i \<notin> m_id ` set docs"
  by (induction docs) (auto simp: findOne_def)

lemma findOne_updateOne_same:
  "findOne docs i = Some m \<Longrightarrow> m_id (f m) = m_id m \<Longrightarrow> findOne (updateOne docs i f) i = Some (f m)"
  by (induction docs) (auto simp: findOne_def)

lemma map_id_updateOne:
  "(\<And>m. m_id (f m) = m_id m) \<Longrightarrow> map m_id (updateOne docs i f) = map m_id docs"
  by (induction docs) auto

lemma set_updateOne:
  "m' \<in> set (updateOne docs i f) \<Longrightarrow> m' \<in> set docs \<or> (\<exists>m \<in> set docs. m_id m = i \<and> m' = f m)"
  by (induction docs) (auto split: if_splits)

lemma updateOne_distinct_all:
  "distinct (map m_id docs) \<Longrightarrow> m' \<in> set (updateOne docs i f) \<Longrightarrow> (\<And>m. m_id (f m) = m_id m)
     \<Longrightarrow> m_id m' = i \<Longrightarrow> (\<exists>m \<in> set docs. m' = f m)"
proof (induction docs)
  case Nil
  then show ?case by simp
next
  case (Cons a docs)
  show ?case
  proof (cases "m_id a = i")
    case True
    with Cons.prems have "m' = f a \<or> m' \<in> set docs" by auto
    moreover have "m' \<notin> set docs"
      using Cons.prems(1) Cons.prems(4) True by (auto simp: image_iff)
    ultimately show ?thesis by simp
  next
    case False
    with Cons show ?thesis by auto
  qed
qed

lemma Map_get_Map_set_same: "Map_get (Map_set kvs k v) k = Some v"
  by (induction kvs) (auto simp: Map_get_def)

lemma Map_get_Map_set_other: "k' \<noteq> k \<Longrightarrow> Map_get (Map_set kvs k v) k' = Map_get kvs k'"
  by (induction kvs) (auto simp: Map_get_def)

lemma Map_get_filter_other:
  "k \<notin> K \<Longrightarrow> Map_get (filter (\<lambda>kv. fst kv \<notin> K) kvs) k = Map_get kvs k"
  by (induction kvs) (auto simp: Map_get_def)

lemma Map_set_keys: "fst ` set (Map_set kvs k v) = insert k (fst ` set kvs)"
proof (induction kvs)
  case Nil
  show ?case by simp
next
  case (Cons a kvs)
  obtain k' v' where a: "a = (k', v')" by (cases a)
  show ?case using Cons.IH by (cases "k' = k") (simp_all add: a insert_commute)
qed

lemma Map_get_Some_key: "Map_get kvs k = Some v \<Longrightarrow> k \<in> fst ` set kvs"
  by (auto simp: Map_get_def dest: map_of_SomeD intro: rev_image_eqI)

lemma nameOf_collection_update [simp]: "nameOf (s\<lparr>collection := docs\<rparr>) c = nameOf s c"
  by (simp add: nameOf_def)


lemma count_list_append_new: "x \<notin> set xs \<Longrightarrow> count_list (xs @ [x]) x = 1"
  by (induction xs) auto

lemma anonymous_room_eq:
  "anonymous_room =
     \<lparr>onlineUsers = [(1, ''Anonymous''), (2, [])],
      collection = [\<lparr>m_id = 0, m_user = ''Anonymous'', m_text = ''hi'', m_time = 1000,
                      m_deleted = False, m_edited = False, m_editTime = None, m_readBy = []\<rparr>],
      next_id = 1\<rparr>"
  by code_simp

lemma wf_alice_room: "wf_store alice_room"
  by (simp add: wf_store_def alice_room_def)

section \<open>Authorization of delete and edit (C1)\<close>

text \<open>
  C1 as stated: a delete or edit from a connection whose registered name differs from
  the message's author changes nothing and broadcasts nothing. It fails where the
  registered name is the empty string and the author is \<open>Anonymous\<close>. In
  \<open>anonymous_room\<close> client 2 is registered under the empty name (the roster the server
  broadcasts shows it so), client 1's message has the author \<open>Anonymous\<close>, and the
  handlers read client 2's name as \<open>onlineUsers.get(socket.id) || 'Anonymous'\<close>: its
  delete marks the message deleted and is broadcast, and so is its edit.
\<close>

theorem authorization_counterexample:
  "Map_get (onlineUsers anonymous_room) 2 = Some [] \<and>
   map_option m_user (findOne (collection anonymous_room) 0) = Some ''Anonymous'' \<and>
   on_delete_message anonymous_room 2 0 True \<noteq> (anonymous_room, []) \<and>
   snd (on_delete_message anonymous_room 2 0 True) = [(ToAll, DeleteMessageOut 0)] \<and>
   map_option m_deleted (findOne (collection (fst (on_delete_message anonymous_room 2 0 True))) 0)
     = Some True \<and>
   snd (on_edit_message tag_dropping_sanitizer anonymous_room 2
          (Some \<lparr>messageId = 0, newText = ''bye''\<rparr>) 2000 2000 2000 True)
     = [(ToAll, EditMessageOut 0 ''bye'' 2000)] \<and>
   map_option m_text (findOne (collection (fst (on_edit_message tag_dropping_sanitizer anonymous_room 2
          (Some \<lparr>messageId = 0, newText = ''bye''\<rparr>) 2000 2000 2000 True))) 0)
     = Some ''bye''"
  by code_simp

text \<open>
  C1, amended: the name that counts is the one the handler reads, \<open>nameOf\<close>: the
  connection's registry entry, or \<open>Anonymous\<close> when the entry is missing or empty. For a
  message that exists: if that name differs from the message's author, a delete and an
  edit leave the whole server state as it was and emit nothing, whether or not the
  store is available; if it equals the author and the store is available, the delete
  emits exactly the message's id to all clients and the stored message is the old one
  with \<open>deleted\<close> set.
\<close>

theorem delete_edit_authorization:
  assumes "findOne (collection s) i = Some m"
  shows "(nameOf s c \<noteq> m_user m \<longrightarrow>
            on_delete_message s c i db_ok = (s, []) \<and>
            on_edit_message san s c (Some \<lparr>messageId = i, newText = t\<rparr>) now now_stored now_emitted db_ok
              = (s, [])) \<and>
         (nameOf s c = m_user m \<longrightarrow>
            snd (on_delete_message s c i True) = [(ToAll, DeleteMessageOut i)] \<and>
            recipients connected ToAll = connected \<and>
            onlineUsers (fst (on_delete_message s c i True)) = onlineUsers s \<and>
            findOne (collection (fst (on_delete_message s c i True))) i = Some (m\<lparr>m_deleted := True\<rparr>))"
  using assms by (auto simp: on_delete_message_def on_edit_message_def Let_def findOne_updateOne_same)

theorem delete_edit_authorization_witness:
  "findOne (collection alice_room) 0 = Some (hd (collection alice_room)) \<and>
   nameOf alice_room 2 \<noteq> m_user (hd (collection alice_room)) \<and>
   on_delete_message alice_room 2 0 True = (alice_room, []) \<and>
   on_edit_message tag_dropping_sanitizer alice_room 2 (Some \<lparr>messageId = 0, newText = ''x''\<rparr>)
     5000 5000 5000 True = (alice_room, []) \<and>
   nameOf alice_room 1 = m_user (hd (collection alice_room)) \<and>
   snd (on_delete_message alice_room 1 0 True) = [(ToAll, DeleteMessageOut 0)] \<and>
   recipients [1, 2] ToAll = [1, 2] \<and>
   findOne (collection (fst (on_delete_message alice_room 1 0 True))) 0
     = Some ((hd (collection alice_room))\<lparr>m_deleted := True\<rparr>)"
proof -
  have found: "findOne (collection alice_room) 0 = Some (hd (collection alice_room))"
    by (simp add: alice_room_def findOne_def)
  have bob: "nameOf alice_room 2 \<noteq> m_user (hd (collection alice_room))"
    by (simp add: alice_room_def nameOf_def Map_get_def js_or_def)
  have alice: "nameOf alice_room 1 = m_user (hd (collection alice_room))"
    by (simp add: alice_room_def nameOf_def Map_get_def js_or_def)
  from delete_edit_authorization [OF found, of 2 True tag_dropping_sanitizer "''x''" 5000 5000 5000 "[1, 2]"]
    delete_edit_authorization [OF found, of 1 True tag_dropping_sanitizer "''x''" 5000 5000 5000 "[1, 2]"]
  show ?thesis using found bob alice by simp
qed

section \<open>The edit rate limit (C2)\<close>

text \<open>
  C2 as stated: an edit by the author is rate-limited exactly when \<open>lastEditAt\<close> is
  non-null and \<open>now - lastEditAt < 5 minutes\<close>. The handler lets an edit through only
  when \<open>editTime < now - 5 minutes\<close>, so an edit exactly five minutes after the last one
  is still refused, where the stated limit has ended: in \<open>edited_room\<close> the last edit
  was at time 0, and Alice's edit at time 300000 changes nothing and emits nothing.
\<close>

theorem edit_rate_limit_counterexample:
  "map_option m_editTime (findOne (collection edited_room) 0) = Some (Some 0) \<and>
   map_option m_user (findOne (collection edited_room) 0) = Some (nameOf edited_room 1) \<and>
   \<not> spec_rate_limited (Some 0) 300000 \<and>
   on_edit_message tag_dropping_sanitizer edited_room 1 (Some \<lparr>messageId = 0, newText = ''again''\<rparr>)
     300000 300000 300000 True = (edited_room, [])"
  by code_simp

text \<open>
  C2, amended: for an edit by the message's author (the name the handler reads equals
  the stored author) with the store available, the edit is rate-limited, that is,
  changes nothing and emits nothing, exactly when \<open>editTime\<close> is set and
  \<open>now - editTime \<le> 5 minutes\<close>; otherwise the stored text becomes the sanitized new
  text, \<open>edited\<close> becomes true, \<open>editTime\<close> becomes the time read for it, and the edit
  is broadcast to all clients. So an edit 4 min 59 s after the last one is refused and
  one 5 min 1 s after it succeeds.
\<close>

theorem edit_rate_limit:
  assumes "findOne (collection s) i = Some m" and "nameOf s c = m_user m"
  shows "(if (case m_editTime m of None \<Rightarrow> False | Some l \<Rightarrow> now - l \<le> 5 * 60 * 1000)
          then on_edit_message san s c (Some \<lparr>messageId = i, newText = t\<rparr>) now now_stored now_emitted True
                 = (s, [])
          else snd (on_edit_message san s c (Some \<lparr>messageId = i, newText = t\<rparr>) now now_stored
                      now_emitted True) = [(ToAll, EditMessageOut i t now_emitted)] \<and>
               findOne (collection (fst (on_edit_message san s c (Some \<lparr>messageId = i, newText = t\<rparr>)
                      now now_stored now_emitted True))) i
                 = Some (m\<lparr>m_text := san t, m_edited := True, m_editTime := Some now_stored\<rparr>))"
  using assms
  by (auto simp: on_edit_message_def Let_def findOne_updateOne_same split: option.splits)

theorem edit_rate_limit_witness:
  "findOne (collection edited_room) 0 = Some (hd (collection edited_room)) \<and>
   nameOf edited_room 1 = m_user (hd (collection edited_room)) \<and>
   m_editTime (hd (collection edited_room)) = Some (299000 - (4 * 60 * 1000 + 59 * 1000)) \<and>
   on_edit_message tag_dropping_sanitizer edited_room 1 (Some \<lparr>messageId = 0, newText = ''again''\<rparr>)
     299000 299001 299002 True = (edited_room, []) \<and>
   m_editTime (hd (collection edited_room)) = Some (301000 - (5 * 60 * 1000 + 1000)) \<and>
   snd (on_edit_message tag_dropping_sanitizer edited_room 1 (Some \<lparr>messageId = 0, newText = ''again''\<rparr>)
     301000 301001 301002 True) = [(ToAll, EditMessageOut 0 ''again'' 301002)] \<and>
   findOne (collection (fst (on_edit_message tag_dropping_sanitizer edited_room 1
     (Some \<lparr>messageId = 0, newText = ''again''\<rparr>) 301000 301001 301002 True))) 0
     = Some ((hd (collection edited_room))\<lparr>m_text := ''again'', m_edited := True,
                                             m_editTime := Some 301001\<rparr>)"
proof -
  have found: "findOne (collection edited_room) 0 = Some (hd (collection edited_room))"
    by (simp add: edited_room_def findOne_def)
  have author: "nameOf edited_room 1 = m_user (hd (collection edited_room))"
    by (simp add: edited_room_def nameOf_def Map_get_def js_or_def)
  have last: "m_editTime (hd (collection edited_room)) = Some 0"
    by (simp add: edited_room_def)
  from edit_rate_limit [OF found author, of 299000 tag_dropping_sanitizer "''again''" 299001 299002]
    edit_rate_limit [OF found author, of 301000 tag_dropping_sanitizer "''again''" 301001 301002]
  show ?thesis using found author last by (simp add: tag_dropping_sanitizer_def)
qed

section \<open>What a new connection is sent (C4)\<close>

text \<open>
  C4 as stated: the roster goes to the new connection, then the history goes to it,
  then the updated roster is broadcast to every client. The connection handler sends
  the history first and the roster second, both with \<open>socket.emit\<close>, and broadcasts
  nothing: when client 3 joins \<open>alice_room\<close>, where clients 1 and 2 are connected, the
  two events reach client 3 only.
\<close>

theorem connection_sends_counterexample:
  "snd (on_connection alice_room 3 True) \<noteq> spec_connection_sends alice_room 3 \<and>
   snd (on_connection alice_room 3 True) =
     [(ToSocket 3, MessageHistory (collection alice_room)),
      (ToSocket 3, RoomUsers [''Alice'', ''Bob'', ''Anonymous''])] \<and>
   Map_values (onlineUsers (fst (on_connection alice_room 3 True))) = [''Alice'', ''Bob'', ''Anonymous''] \<and>
   concat (map (\<lambda>e. recipients [1, 2, 3] (fst e)) (snd (on_connection alice_room 3 True))) = [3, 3]"
  by code_simp

text \<open>
  C4, amended: a new connection is registered under the default name \<open>Anonymous\<close>;
  the history snapshot (\<open>listActive 500\<close>) is sent to the new connection only, unless
  the query fails, and then the roster, which includes the newcomer's default name, is
  sent to the new connection only. Nothing is sent to the other clients.
\<close>

theorem connection_sends:
  "on_connection s c db_ok =
     (s\<lparr>onlineUsers := Map_set (onlineUsers s) c ''Anonymous''\<rparr>,
      (if db_ok then [(ToSocket c, MessageHistory (listActive 500 (collection s)))] else [])
      @ [(ToSocket c, RoomUsers (Map_values (Map_set (onlineUsers s) c ''Anonymous'')))]) \<and>
   Map_get (Map_set (onlineUsers s) c ''Anonymous'') c = Some ''Anonymous'' \<and>
   (\<forall>e \<in> set (snd (on_connection s c db_ok)).
      fst e = ToSocket c \<and> set (recipients connected (fst e)) \<subseteq> {c})"
proof -
  have sends: "snd (on_connection s c db_ok) =
      (if db_ok then [(ToSocket c, MessageHistory (listActive 500 (collection s)))] else [])
      @ [(ToSocket c, RoomUsers (Map_values (Map_set (onlineUsers s) c ''Anonymous'')))]"
    by (simp add: on_connection_def Let_def)
  have only: "set (recipients connected (ToSocket c)) \<subseteq> {c}" by auto
  have "fst e = ToSocket c" if "e \<in> set (snd (on_connection s c db_ok))" for e
    using that unfolding sends by (auto split: if_splits)
  with only show ?thesis
    by (simp add: on_connection_def Let_def Map_get_Map_set_same)
qed

theorem connection_sends_witness:
  "on_connection alice_room 3 True =
     (alice_room\<lparr>onlineUsers := [(1, ''Alice''), (2, ''Bob''), (3, ''Anonymous'')]\<rparr>,
      [(ToSocket 3, MessageHistory (collection alice_room)),
       (ToSocket 3, RoomUsers [''Alice'', ''Bob'', ''Anonymous''])]) \<and>
   list_all (\<lambda>e. fst e = ToSocket 3 \<and> recipients [1, 2, 3] (fst e) = [3])
     (snd (on_connection alice_room 3 True))"
proof -
  have roster: "Map_set (onlineUsers alice_room) 3 ''Anonymous''
                  = [(1, ''Alice''), (2, ''Bob''), (3, ''Anonymous'')]"
    by (simp add: alice_room_def)
  have hist: "listActive 500 (collection alice_room) = collection alice_room"
    by (simp add: alice_room_def listActive_def)
  from connection_sends [of alice_room 3 True]
  show ?thesis using roster hist by (simp add: Map_values_def list_all_iff)
qed

section \<open>The timestamp of a stored message (C8)\<close>

text \<open>
  C8 as stated: the stored timestamp defaults to the server's time when the request's
  timestamp is absent and when it is unparseable. With an unparseable timestamp the
  handler passes \<open>Invalid Date\<close> to \<open>Message.create\<close>, which rejects it: nothing is
  stored and nothing is emitted, where the same message without a timestamp is stored
  with the server's time.
\<close>

theorem append_timestamp_counterexample:
  "clean_user tag_dropping_sanitizer (late_message TimeInvalid) = ''Bob'' \<and>
   clean_text tag_dropping_sanitizer (late_message TimeInvalid) = ''late'' \<and>
   collection (fst (on_message tag_dropping_sanitizer alice_room 2 (late_message TimeInvalid) 7000 True))
     = collection alice_room \<and>
   snd (on_message tag_dropping_sanitizer alice_room 2 (late_message TimeInvalid) 7000 True) = [] \<and>
   collection (fst (on_message tag_dropping_sanitizer alice_room 2 (late_message TimeAbsent) 7000 True))
     = collection alice_room @ [new_doc alice_room ''Bob'' ''late'' 7000]"
  by code_simp

text \<open>
  C8, amended: for a message event whose sanitized user and text are not empty, with
  the store available, the stored message's \<open>time\<close> is the request's timestamp when that
  is truthy and parseable, and the server's current time when it is absent or falsy;
  when it is truthy and unparseable, no message is stored and nothing is emitted.
\<close>

theorem append_timestamp:
  assumes "clean_user san msg \<noteq> []" and "clean_text san msg \<noteq> []"
  shows "(case msg_time msg of
            TimeValid tm \<Rightarrow>
              collection (fst (on_message san s c msg now True))
                = collection s @ [new_doc s (clean_user san msg) (clean_text san msg) tm] \<and>
              hd (snd (on_message san s c msg now True))
                = (ToAll, MessageOut (new_doc s (clean_user san msg) (clean_text san msg) tm))
          | TimeInvalid \<Rightarrow>
              collection (fst (on_message san s c msg now True)) = collection s \<and>
              snd (on_message san s c msg now True) = []
          | _ \<Rightarrow>
              collection (fst (on_message san s c msg now True))
                = collection s @ [new_doc s (clean_user san msg) (clean_text san msg) now] \<and>
              hd (snd (on_message san s c msg now True))
                = (ToAll, MessageOut (new_doc s (clean_user san msg) (clean_text san msg) now)))"
  using assms
  by (auto simp: on_message_def Message_create_def new_doc_def Let_def split: time_field.splits)

theorem append_timestamp_witness:
  "clean_user tag_dropping_sanitizer (late_message (TimeValid 42)) \<noteq> [] \<and>
   clean_text tag_dropping_sanitizer (late_message (TimeValid 42)) \<noteq> [] \<and>
   collection (fst (on_message tag_dropping_sanitizer alice_room 2 (late_message (TimeValid 42)) 7000 True))
     = collection alice_room @ [new_doc alice_room ''Bob'' ''late'' 42] \<and>
   collection (fst (on_message tag_dropping_sanitizer alice_room 2 (late_message TimeAbsent) 7000 True))
     = collection alice_room @ [new_doc alice_room ''Bob'' ''late'' 7000] \<and>
   collection (fst (on_message tag_dropping_sanitizer alice_room 2 (late_message TimeFalsy) 7000 True))
     = collection alice_room @ [new_doc alice_room ''Bob'' ''late'' 7000] \<and>
   collection (fst (on_message tag_dropping_sanitizer alice_room 2 (late_message TimeInvalid) 7000 True))
     = collection alice_room"
proof -
  have u: "clean_user tag_dropping_sanitizer (late_message tf) = ''Bob''" for tf
    by (simp add: clean_user_def late_message_def tag_dropping_sanitizer_def js_or_def
        trim_def white_space_def strip.simps)
  have t: "clean_text tag_dropping_sanitizer (late_message tf) = ''late''" for tf
    by (simp add: clean_text_def late_message_def tag_dropping_sanitizer_def js_or_def)
  have tf: "msg_time (late_message tf) = tf" for tf
    by (simp add: late_message_def)
  from append_timestamp [of tag_dropping_sanitizer "late_message (TimeValid 42)" alice_room 2 7000]
    append_timestamp [of tag_dropping_sanitizer "late_message TimeAbsent" alice_room 2 7000]
    append_timestamp [of tag_dropping_sanitizer "late_message TimeFalsy" alice_room 2 7000]
    append_timestamp [of tag_dropping_sanitizer "late_message TimeInvalid" alice_room 2 7000]
  show ?thesis by (simp add: u t tf)
qed

section \<open>A message without text (C10)\<close>

text \<open>
  C10: a message event whose text, after \<open>msg.text || ''\<close> and sanitization, is the
  empty string stores no message and emits nothing, whatever the rest of the payload
  and whether or not the store is available: \<open>Message.create\<close> rejects the empty
  required text and the handler's \<open>catch\<close> only logs. (The sender's registry entry has
  been set to the payload's user by then; no roster is emitted for it.)
\<close>

theorem empty_text_not_stored:
  assumes "clean_text san msg = []"
  shows "collection (fst (on_message san s c msg now db_ok)) = collection s \<and>
         next_id (fst (on_message san s c msg now db_ok)) = next_id s \<and>
         snd (on_message san s c msg now db_ok) = []"
  using assms by (simp add: on_message_def Message_create_def Let_def)

theorem empty_text_not_stored_witness:
  "clean_text tag_dropping_sanitizer (blank_message None) = [] \<and>
   collection (fst (on_message tag_dropping_sanitizer alice_room 2 (blank_message None) 7000 True))
     = collection alice_room \<and>
   snd (on_message tag_dropping_sanitizer alice_room 2 (blank_message None) 7000 True) = [] \<and>
   clean_text tag_dropping_sanitizer (blank_message (Some [])) = [] \<and>
   collection (fst (on_message tag_dropping_sanitizer alice_room 2 (blank_message (Some [])) 7000 True))
     = collection alice_room \<and>
   snd (on_message tag_dropping_sanitizer alice_room 2 (blank_message (Some [])) 7000 True) = [] \<and>
   clean_text tag_dropping_sanitizer (blank_message (Some ''<b></b>'')) = [] \<and>
   snd (on_message tag_dropping_sanitizer alice_room 2 (blank_message (Some ''<b></b>'')) 7000 True) = []"
proof -
  have a: "clean_text tag_dropping_sanitizer (blank_message None) = []"
    by (simp add: clean_text_def blank_message_def tag_dropping_sanitizer_def js_or_def)
  have b: "clean_text tag_dropping_sanitizer (blank_message (Some [])) = []"
    by (simp add: clean_text_def blank_message_def tag_dropping_sanitizer_def js_or_def)
  have c: "clean_text tag_dropping_sanitizer (blank_message (Some ''<b></b>'')) = []"
    by (simp add: clean_text_def blank_message_def tag_dropping_sanitizer_def js_or_def)
  from empty_text_not_stored [OF a, of alice_room 2 7000 True]
    empty_text_not_stored [OF b, of alice_room 2 7000 True]
    empty_text_not_stored [OF c, of alice_room 2 7000 True]
  show ?thesis using a b c by simp
qed

section \<open>Soft-deleted messages stay out of every listing (C5)\<close>

lemma tombstoned_updateOne:
  assumes "tombstoned docs X" and "\<And>m. m_id (f m) = m_id m" and "\<And>m. m_deleted m \<Longrightarrow> m_deleted (f m)"
  shows "tombstoned (updateOne docs i f) X"
proof -
  have ids: "m_id ` set (updateOne docs i f) = m_id ` set docs"
    using map_id_updateOne [of f docs i] assms(2) by (metis set_map)
  have "\<exists>m \<in> set (updateOne docs i f). m_id m = X"
    using assms(1) ids unfolding tombstoned_def by (metis (no_types, lifting) image_iff)
  moreover have "m_deleted m'" if "m' \<in> set (updateOne docs i f)" and "m_id m' = X" for m'
    using set_updateOne [OF that(1)] that(2) assms unfolding tombstoned_def by auto
  ultimately show ?thesis unfolding tombstoned_def by blast
qed

lemma tombstoned_after_delete:
  assumes "distinct (map m_id docs)" and "findOne docs X = Some m"
  shows "tombstoned (updateOne docs X (\<lambda>m. m\<lparr>m_deleted := True\<rparr>)) X"
proof -
  let ?f = "\<lambda>m::message. m\<lparr>m_deleted := True\<rparr>"
  have ids: "map m_id (updateOne docs X ?f) = map m_id docs"
    by (rule map_id_updateOne) simp
  have "X \<in> m_id ` set docs" using findOne_SomeD [OF assms(2)] by auto
  then have "X \<in> m_id ` set (updateOne docs X ?f)" using ids by (metis set_map)
  then have ex: "\<exists>m \<in> set (updateOne docs X ?f). m_id m = X" by auto
  have "m_deleted m'" if "m' \<in> set (updateOne docs X ?f)" and "m_id m' = X" for m'
    using updateOne_distinct_all [OF assms(1) that(1) _ that(2)] by auto
  with ex show ?thesis unfolding tombstoned_def by blast
qed

lemma tombstoned_findOne:
  assumes "tombstoned docs X"
  shows "\<exists>m. findOne docs X = Some m \<and> m_deleted m"
proof -
  have "findOne docs X \<noteq> None" using assms by (auto simp: findOne_None_iff tombstoned_def)
  then obtain m where m: "findOne docs X = Some m" by auto
  with findOne_SomeD [OF m] assms show ?thesis by (auto simp: tombstoned_def)
qed

lemma tombstoned_listActive:
  assumes "tombstoned docs X"
  shows "X \<notin> m_id ` set (listActive limit docs)"
proof
  assume "X \<in> m_id ` set (listActive limit docs)"
  then obtain m where "m \<in> set (listActive limit docs)" and "m_id m = X" by auto
  then have "m \<in> set docs \<and> \<not> m_deleted m"
    unfolding listActive_def by (auto dest: in_set_takeD)
  with assms \<open>m_id m = X\<close> show False by (auto simp: tombstoned_def)
qed

text \<open>Every event leaves the collection as it was, updates one document, or appends one.\<close>

lemma step_changed: "\<exists>ch. changed s ch (fst (step san s e))"
proof (cases e)
  case (Connection c ok)
  then have "changed s Unchanged (fst (step san s e))" by (simp add: on_connection_def Let_def)
  then show ?thesis ..
next
  case (SetUsername c u)
  then have "changed s Unchanged (fst (step san s e))" by (simp add: on_set_username_def Let_def)
  then show ?thesis ..
next
  case (SendMessage c msg now ok)
  show ?thesis
  proof (cases "Message_create (s\<lparr>onlineUsers := Map_set (onlineUsers s) c (clean_user san msg)\<rparr>)
                  (clean_user san msg) (clean_text san msg) (request_time (msg_time msg) now) ok")
    case (Inl err)
    with SendMessage have "changed s Unchanged (fst (step san s e))"
      by (simp add: on_message_def Let_def)
    then show ?thesis ..
  next
    case (Inr p)
    obtain s2 doc where p: "p = (s2, doc)" by (cases p)
    with Inr SendMessage have "changed s (Appended doc) (fst (step san s e))"
      by (auto simp: on_message_def Message_create_def new_doc_def Let_def
          split: if_splits option.splits)
    then show ?thesis ..
  qed
next
  case (DeleteMessage c i ok)
  have k: "keeps (\<lambda>m. m\<lparr>m_deleted := True\<rparr>)" by (simp add: keeps_def)
  have "changed s Unchanged (fst (step san s e)) \<or>
        changed s (Updated i (\<lambda>m. m\<lparr>m_deleted := True\<rparr>)) (fst (step san s e))"
    using DeleteMessage k by (simp add: on_delete_message_def Let_def split: option.splits)
  then show ?thesis by blast
next
  case (EditMessage c data now ns ne ok)
  show ?thesis
  proof (cases data)
    case None
    with EditMessage have "changed s Unchanged (fst (step san s e))"
      by (simp add: on_edit_message_def)
    then show ?thesis ..
  next
    case (Some d)
    let ?f = "\<lambda>m. m\<lparr>m_text := san (newText d), m_edited := True, m_editTime := Some ns\<rparr>"
    have k: "keeps ?f" by (simp add: keeps_def)
    have "changed s Unchanged (fst (step san s e)) \<or>
          changed s (Updated (messageId d) ?f) (fst (step san s e))"
      using EditMessage Some k by (simp add: on_edit_message_def Let_def split: option.splits)
    then show ?thesis by blast
  qed
next
  case (MessageRead c i ok)
  let ?f = "\<lambda>m. m\<lparr>m_readBy := addToSet (nameOf s c) (m_readBy m)\<rparr>"
  have k: "keeps ?f" by (simp add: keeps_def addToSet_def)
  have "changed s Unchanged (fst (step san s e)) \<or> changed s (Updated i ?f) (fst (step san s e))"
    using MessageRead k
    by (simp add: on_message_read_def message_read_test_def message_read_update_def Let_def
        split: option.splits)
  then show ?thesis by blast
next
  case (Typing c u now)
  then have "changed s Unchanged (fst (step san s e))" by (simp add: on_typing_def Let_def)
  then show ?thesis ..
next
  case (Disconnect c)
  then have "changed s Unchanged (fst (step san s e))" by (simp add: on_disconnect_def Let_def)
  then show ?thesis ..
qed

lemma changed_wf_store:
  assumes "changed s ch s'" and "wf_store s"
  shows "wf_store s'"
proof (cases ch)
  case Unchanged
  with assms show ?thesis by (simp add: wf_store_def)
next
  case (Updated i f)
  from assms(1) Updated have k: "keeps f" and col: "collection s' = updateOne (collection s) i f"
    and n: "next_id s' = next_id s" by simp_all
  have ids: "map m_id (collection s') = map m_id (collection s)"
    using k col by (simp add: map_id_updateOne keeps_def)
  have "m_id m' < next_id s' \<and> distinct (m_readBy m')" if "m' \<in> set (collection s')" for m'
    using set_updateOne [of m' "collection s" i f] that col k assms(2) n
    by (auto simp: wf_store_def keeps_def)
  with ids assms(2) show ?thesis by (simp add: wf_store_def)
next
  case (Appended doc)
  with assms show ?thesis by (auto simp: wf_store_def)
qed

lemma changed_tombstoned:
  assumes "changed s ch s'" and "wf_store s" and "tombstoned (collection s) X"
  shows "tombstoned (collection s') X"
proof (cases ch)
  case Unchanged
  with assms show ?thesis by simp
next
  case (Updated i f)
  with assms show ?thesis by (simp add: tombstoned_updateOne keeps_def)
next
  case (Appended doc)
  have "X < next_id s" using assms(2,3) by (auto simp: wf_store_def tombstoned_def)
  with Appended assms show ?thesis by (auto simp: tombstoned_def)
qed

lemma run_invariant:
  "wf_store s \<Longrightarrow> tombstoned (collection s) X
     \<Longrightarrow> wf_store (fst (run san s es)) \<and> tombstoned (collection (fst (run san s es))) X"
proof (induction es arbitrary: s)
  case Nil
  then show ?case by simp
next
  case (Cons e es)
  obtain ch where ch: "changed s ch (fst (step san s e))" using step_changed by blast
  have w: "wf_store (fst (step san s e))" using changed_wf_store [OF ch Cons.prems(1)] .
  have t: "tombstoned (collection (fst (step san s e))) X"
    using changed_tombstoned [OF ch Cons.prems] .
  from Cons.IH [OF w t] show ?case by (simp add: split_beta Let_def)
qed

lemma run_wf_store: "wf_store s \<Longrightarrow> wf_store (fst (run san s es))"
proof (induction es arbitrary: s)
  case Nil
  then show ?case by simp
next
  case (Cons e es)
  obtain ch where ch: "changed s ch (fst (step san s e))" using step_changed by blast
  from Cons.IH [OF changed_wf_store [OF ch Cons.prems]] show ?case by (simp add: split_beta Let_def)
qed

text \<open>Every state the server reaches from its start is well formed.\<close>

lemma reachable_wf_store: "wf_store (fst (run san server_init es))"
proof (rule run_wf_store)
  show "wf_store server_init" by (simp add: wf_store_def server_init_def)
qed

text \<open>
  C5: in a store with unique ids, after a delete of message \<open>X\<close> by its author has
  succeeded, whatever events follow (\<open>es\<close>, of any kind, from any connection): a lookup
  of \<open>X\<close> by id still finds a document and it has \<open>deleted\<close> set; \<open>X\<close> is in no
  \<open>listActive limit\<close>, for every limit; so it is absent from the history a later
  connection is sent and from the answer of \<open>GET /messages\<close>.
\<close>

theorem soft_delete_exclusion:
  assumes "wf_store s" and "findOne (collection s) X = Some m" and "nameOf s c = m_user m"
  shows "(\<exists>m'. findOne (collection (fst (run san (fst (on_delete_message s c X True)) es))) X = Some m'
               \<and> m_deleted m') \<and>
         X \<notin> m_id ` set (listActive limit (collection (fst (run san (fst (on_delete_message s c X True)) es)))) \<and>
         (\<forall>hist. (ToSocket d, MessageHistory hist)
                    \<in> set (snd (on_connection (fst (run san (fst (on_delete_message s c X True)) es)) d db_ok))
                  \<longrightarrow> X \<notin> m_id ` set hist) \<and>
         (\<forall>msgs. get_messages (fst (run san (fst (on_delete_message s c X True)) es)) db_ok = Inr msgs
                  \<longrightarrow> X \<notin> m_id ` set msgs)"
proof -
  let ?s1 = "fst (on_delete_message s c X True)"
  let ?s2 = "fst (run san ?s1 es)"
  have col: "collection ?s1 = updateOne (collection s) X (\<lambda>m. m\<lparr>m_deleted := True\<rparr>)"
    and nx: "next_id ?s1 = next_id s"
    using assms(2,3) by (simp_all add: on_delete_message_def Let_def)
  have "changed s (Updated X (\<lambda>m. m\<lparr>m_deleted := True\<rparr>)) ?s1"
    using col nx by (simp add: keeps_def)
  then have w1: "wf_store ?s1" using assms(1) by (rule changed_wf_store)
  have t1: "tombstoned (collection ?s1) X"
    using tombstoned_after_delete [OF _ assms(2)] assms(1) col by (simp add: wf_store_def)
  have t2: "tombstoned (collection ?s2) X" using run_invariant [OF w1 t1] by simp
  have a: "\<exists>m'. findOne (collection ?s2) X = Some m' \<and> m_deleted m'"
    using t2 by (rule tombstoned_findOne)
  have b: "X \<notin> m_id ` set (listActive l (collection ?s2))" for l
    using t2 by (rule tombstoned_listActive)
  have c: "X \<notin> m_id ` set hist"
    if "(ToSocket d, MessageHistory hist) \<in> set (snd (on_connection ?s2 d db_ok))" for hist
    using that b [of 500] by (auto simp: on_connection_def Let_def split: if_splits)
  have d: "X \<notin> m_id ` set msgs" if "get_messages ?s2 db_ok = Inr msgs" for msgs
    using that b [of 500] by (auto simp: get_messages_def split: if_splits)
  from a b c d show ?thesis by blast
qed

theorem soft_delete_exclusion_witness:
  "wf_store alice_room \<and>
   findOne (collection alice_room) 0 = Some (hd (collection alice_room)) \<and>
   nameOf alice_room 1 = m_user (hd (collection alice_room)) \<and>
   (\<exists>m'. findOne (collection (fst (run tag_dropping_sanitizer
             (fst (on_delete_message alice_room 1 0 True)) after_delete_calls))) 0 = Some m' \<and> m_deleted m') \<and>
   0 \<notin> m_id ` set (listActive 500 (collection (fst (run tag_dropping_sanitizer
             (fst (on_delete_message alice_room 1 0 True)) after_delete_calls)))) \<and>
   map m_id (listActive 500 (collection (fst (run tag_dropping_sanitizer
             (fst (on_delete_message alice_room 1 0 True)) after_delete_calls)))) = [1]"
proof -
  have found: "findOne (collection alice_room) 0 = Some (hd (collection alice_room))"
    by (simp add: alice_room_def findOne_def)
  have author: "nameOf alice_room 1 = m_user (hd (collection alice_room))"
    by (simp add: alice_room_def nameOf_def Map_get_def js_or_def)
  have active: "map m_id (listActive 500 (collection (fst (run tag_dropping_sanitizer
             (fst (on_delete_message alice_room 1 0 True)) after_delete_calls)))) = [1]"
    by code_simp
  from soft_delete_exclusion [OF wf_alice_room found author, of tag_dropping_sanitizer
      after_delete_calls 500 3 True]
  show ?thesis using wf_alice_room found author active by blast
qed

section \<open>Read receipts (C6)\<close>











text \<open>
  When the first run has emitted before the second is taken up, the two runs are two
  calls of the listener in a row.
\<close>

lemma interleave_in_turn:
  "interleave [True, True, True, False, False, False] (two_reads s c d i) =
     \<lparr>r_server = fst (on_message_read (fst (on_message_read s c i True)) d i True),
      r_out = snd (on_message_read s c i True)
                @ snd (on_message_read (fst (on_message_read s c i True)) d i True),
      r_first = Finished, r_second = Finished\<rparr>"
  by (simp add: interleave_def two_reads_def advance_first_def advance_second_def
      on_message_read_def split: option.splits)




section \<open>The typing relay (C7)\<close>

text \<open>
  The server with deletion, editing and read receipts registers one listener for
  \<open>typing\<close>: it emits one typing event, to every connected client but the sender (and
  the roster to all).
\<close>

lemma on_typing_relays_once:
  "filter is_typing (snd (on_typing san s c u now))
     = [(ToOthers c, TypingOut (san (js_or (Some (trim (js_or u ''Someone''))) ''Someone'')) now)] \<and>
   c \<notin> set (recipients connected (ToOthers c)) \<and>
   set (recipients connected (ToOthers c)) = set connected - {c}"
  by (auto simp: on_typing_def Let_def)

text \<open>
  C7 fails on the earlier server, which registers two listeners for \<open>typing\<close>: one
  typing event from client 1 (\<open>{ user: 'Alice' }\<close>, at time 5000) makes the server emit
  two typing events, the second with the payload as it came, and client 2 receives
  both.
\<close>

theorem typing_relayed_twice:
  "typing_listeners 1 (Some ''Alice'') 5000
     = [(ToOthers 1, TypingOut ''Alice'' 5000), (ToOthers 1, TypingRawOut (Some ''Alice''))] \<and>
   length (filter is_typing (typing_listeners 1 (Some ''Alice'') 5000)) = 2 \<and>
   map (\<lambda>e. recipients [1, 2] (fst e)) (typing_listeners 1 (Some ''Alice'') 5000) = [[2], [2]]"
  by code_simp

section \<open>The client's typing timers (C3)\<close>

lemma fold_expired_users:
  "typingUsers (fold (\<lambda>p. typing_expired (t_who p)) ps st)
     = filter (\<lambda>u. u \<notin> t_who ` set ps) (typingUsers st)"
proof (induction ps arbitrary: st)
  case Nil
  then show ?case by simp
next
  case (Cons p ps)
  have "filter (\<lambda>u. u \<notin> t_who ` set ps) (filter (\<lambda>y. y \<noteq> t_who p) (typingUsers st))
          = filter (\<lambda>u. u \<notin> t_who ` set (p # ps)) (typingUsers st)"
    by (auto intro: filter_cong)
  then show ?case using Cons.IH [of "typing_expired (t_who p) st"]
    by (simp add: typing_expired_def Set_delete_def)
qed

lemma fold_expired_timers:
  "typingTimers (fold (\<lambda>p. typing_expired (t_who p)) ps st)
     = filter (\<lambda>kv. fst kv \<notin> t_who ` set ps) (typingTimers st)"
proof (induction ps arbitrary: st)
  case Nil
  then show ?case by simp
next
  case (Cons p ps)
  have "filter (\<lambda>kv. fst kv \<notin> t_who ` set ps) (filter (\<lambda>kv. fst kv \<noteq> t_who p) (typingTimers st))
          = filter (\<lambda>kv. fst kv \<notin> t_who ` set (p # ps)) (typingTimers st)"
    by (auto intro: filter_cong)
  then show ?case using Cons.IH [of "typing_expired (t_who p) st"]
    by (simp add: typing_expired_def Map_delete_def)
qed

lemma fold_expired_rest:
  "timeouts (fold (\<lambda>p. typing_expired (t_who p)) ps st) = timeouts st \<and>
   next_timeout (fold (\<lambda>p. typing_expired (t_who p)) ps st) = next_timeout st \<and>
   mounted (fold (\<lambda>p. typing_expired (t_who p)) ps st) = mounted st"
  by (induction ps arbitrary: st) (simp_all add: typing_expired_def)

lemma run_timeouts_fields:
  "typingUsers (run_timeouts T st)
     = filter (\<lambda>u. u \<notin> t_who ` {p \<in> set (timeouts st). t_due p \<le> T}) (typingUsers st)"
  "typingTimers (run_timeouts T st)
     = filter (\<lambda>kv. fst kv \<notin> t_who ` {p \<in> set (timeouts st). t_due p \<le> T}) (typingTimers st)"
  "timeouts (run_timeouts T st) = filter (\<lambda>p. \<not> t_due p \<le> T) (timeouts st)"
  "next_timeout (run_timeouts T st) = next_timeout st"
  "mounted (run_timeouts T st) = mounted st"
  by (simp_all add: run_timeouts_def fold_expired_users fold_expired_timers fold_expired_rest)

lemma timers_wf_unique:
  assumes "timers_wf st" and "p \<in> set (timeouts st)" and "q \<in> set (timeouts st)"
    and "t_who p = t_who q"
  shows "p = q"
proof -
  have "Map_get (typingTimers st) (t_who p) = Some (t_id p)"
    and "Map_get (typingTimers st) (t_who q) = Some (t_id q)"
    using assms(1-3) by (simp_all add: timers_wf_def)
  then have "t_id p = t_id q" using assms(4) by simp
  moreover have "inj_on t_id (set (timeouts st))"
    using assms(1) by (simp add: timers_wf_def distinct_map)
  ultimately show ?thesis using assms(2,3) by (auto dest: inj_onD)
qed

lemma timers_wf_owner:
  assumes "timers_wf st" and "Map_get (typingTimers st) w = Some t"
    and "p \<in> set (timeouts st)" and "t_id p = t"
  shows "t_who p = w"
proof -
  have "w \<in> fst ` set (typingTimers st)" using assms(2) by (rule Map_get_Some_key)
  then have "w \<in> t_who ` set (timeouts st)" using assms(1) by (auto simp: timers_wf_def)
  then obtain q where q: "q \<in> set (timeouts st)" "t_who q = w" by auto
  then have "Map_get (typingTimers st) w = Some (t_id q)" using assms(1) by (auto simp: timers_wf_def)
  then have "t_id q = t_id p" using assms(2,4) by simp
  moreover have "inj_on t_id (set (timeouts st))"
    using assms(1) by (simp add: timers_wf_def distinct_map)
  ultimately have "q = p" using assms(3) q(1) by (auto dest: inj_onD)
  with q show ?thesis by simp
qed

lemma run_timeouts_wf:
  assumes "timers_wf st"
  shows "timers_wf (run_timeouts T st)"
proof -
  let ?fired = "t_who ` {q \<in> set (timeouts st). t_due q \<le> T}"
  have d: "distinct (map t_id (filter (\<lambda>p. \<not> t_due p \<le> T) (timeouts st)))"
    using assms by (simp add: timers_wf_def distinct_map_filter)
  have late_not_fired: "t_who p \<notin> ?fired" if p: "p \<in> set (timeouts st)" and late: "\<not> t_due p \<le> T" for p
  proof
    assume "t_who p \<in> ?fired"
    then obtain q where q: "q \<in> set (timeouts st)" "t_due q \<le> T" "t_who p = t_who q" by auto
    then have "p = q" using timers_wf_unique [OF assms p] by simp
    with late q show False by simp
  qed
  have reg: "Map_get (typingTimers (run_timeouts T st)) (t_who p) = Some (t_id p) \<and>
        t_id p < next_timeout (run_timeouts T st)"
    if p: "p \<in> set (timeouts st)" and late: "\<not> t_due p \<le> T" for p
    using late_not_fired [OF that] assms p
    by (simp add: run_timeouts_fields Map_get_filter_other timers_wf_def)
  have keys: "fst kv \<in> t_who ` set (timeouts (run_timeouts T st))"
    if kv: "kv \<in> set (typingTimers st)" and nf: "fst kv \<notin> ?fired" for kv
  proof -
    from kv assms obtain q where q: "q \<in> set (timeouts st)" "t_who q = fst kv"
      by (auto simp: timers_wf_def)
    have "\<not> t_due q \<le> T"
    proof
      assume "t_due q \<le> T"
      with q have "t_who q \<in> ?fired" by blast
      with q(2) nf show False by simp
    qed
    with q show ?thesis by (auto simp: run_timeouts_fields(3) intro: rev_image_eqI)
  qed
  show ?thesis
    unfolding timers_wf_def
  proof (intro conjI ballI)
    show "distinct (map t_id (timeouts (run_timeouts T st)))"
      using d by (simp add: run_timeouts_fields(3))
  next
    fix p assume "p \<in> set (timeouts (run_timeouts T st))"
    then have "p \<in> set (timeouts st)" "\<not> t_due p \<le> T" by (simp_all add: run_timeouts_fields(3))
    then show "Map_get (typingTimers (run_timeouts T st)) (t_who p) = Some (t_id p)"
      and "t_id p < next_timeout (run_timeouts T st)" using reg by simp_all
  next
    fix kv assume "kv \<in> set (typingTimers (run_timeouts T st))"
    then have "kv \<in> set (typingTimers st)" "fst kv \<notin> ?fired" by (simp_all add: run_timeouts_fields(2))
    then show "fst kv \<in> t_who ` set (timeouts (run_timeouts T st))" by (rule keys)
  qed
qed

lemma chat_on_typing_fields:
  assumes "timers_wf st" and "mounted st" and "typing_who u \<noteq> self_name clo"
  shows "typingUsers (chat_on_typing clo u now st) = Set_add (typing_who u) (typingUsers st)"
    and "typingTimers (chat_on_typing clo u now st)
           = Map_set (typingTimers st) (typing_who u) (next_timeout st)"
    and "timeouts (chat_on_typing clo u now st)
           = filter (\<lambda>p. t_who p \<noteq> typing_who u) (timeouts st)
             @ [\<lparr>t_id = next_timeout st, t_due = now + 2000, t_who = typing_who u\<rparr>]"
    and "next_timeout (chat_on_typing clo u now st) = Suc (next_timeout st)"
    and "mounted (chat_on_typing clo u now st)"
proof -
  let ?who = "typing_who u"
  have cancel: "(case Map_get (typingTimers st) ?who of
                   None \<Rightarrow> timeouts st
                 | Some t \<Rightarrow> filter (\<lambda>p. t_id p \<noteq> t) (timeouts st))
                = filter (\<lambda>p. t_who p \<noteq> ?who) (timeouts st)"
  proof (cases "Map_get (typingTimers st) ?who")
    case None
    then have "\<forall>p \<in> set (timeouts st). t_who p \<noteq> ?who"
      using assms(1) by (auto simp: timers_wf_def)
    then have "filter (\<lambda>p. t_who p \<noteq> ?who) (timeouts st) = timeouts st"
      by (simp add: filter_id_conv)
    with None show ?thesis by simp
  next
    case (Some t)
    have "(t_id p \<noteq> t) = (t_who p \<noteq> ?who)" if p: "p \<in> set (timeouts st)" for p
    proof (cases "t_id p = t")
      case True
      then show ?thesis using timers_wf_owner [OF assms(1) Some p] by simp
    next
      case False
      then have "t_who p \<noteq> ?who" using assms(1) p Some by (auto simp: timers_wf_def)
      with False show ?thesis by simp
    qed
    then have "filter (\<lambda>p. t_id p \<noteq> t) (timeouts st) = filter (\<lambda>p. t_who p \<noteq> ?who) (timeouts st)"
      by (auto intro: filter_cong)
    with Some show ?thesis by simp
  qed
  show "typingUsers (chat_on_typing clo u now st) = Set_add ?who (typingUsers st)"
    using assms(2,3)
    by (simp add: chat_on_typing_def Let_def setTimeout_def clearTimeout_def split: option.splits)
  show "typingTimers (chat_on_typing clo u now st) = Map_set (typingTimers st) ?who (next_timeout st)"
    using assms(2,3)
    by (simp add: chat_on_typing_def Let_def setTimeout_def clearTimeout_def split: option.splits)
  show "timeouts (chat_on_typing clo u now st)
           = filter (\<lambda>p. t_who p \<noteq> ?who) (timeouts st)
             @ [\<lparr>t_id = next_timeout st, t_due = now + 2000, t_who = ?who\<rparr>]"
    using assms(2,3) cancel
    by (auto simp: chat_on_typing_def Let_def setTimeout_def clearTimeout_def split: option.splits)
  show "next_timeout (chat_on_typing clo u now st) = Suc (next_timeout st)"
    using assms(2,3)
    by (simp add: chat_on_typing_def Let_def setTimeout_def clearTimeout_def split: option.splits)
  show "mounted (chat_on_typing clo u now st)"
    using assms(2,3)
    by (simp add: chat_on_typing_def Let_def setTimeout_def clearTimeout_def split: option.splits)
qed

lemma chat_on_typing_ignored:
  "\<not> mounted st \<or> typing_who u = self_name clo \<Longrightarrow> chat_on_typing clo u now st = st"
  by (auto simp: chat_on_typing_def Let_def)

lemma chat_on_typing_wf:
  assumes "timers_wf st"
  shows "timers_wf (chat_on_typing clo u now st)"
proof (cases "mounted st \<and> typing_who u \<noteq> self_name clo")
  case False
  then show ?thesis using assms chat_on_typing_ignored [of st u clo now] by auto
next
  case True
  let ?w = "typing_who u"
  let ?n = "next_timeout st"
  let ?st = "chat_on_typing clo u now st"
  note f = chat_on_typing_fields [OF assms, of u clo now]
  have m: "mounted st" and ns: "?w \<noteq> self_name clo" using True by simp_all
  have old: "t_id p < ?n" if "p \<in> set (timeouts st)" for p
    using assms that by (simp add: timers_wf_def)
  have d: "distinct (map t_id (timeouts ?st))"
  proof -
    have "distinct (map t_id (filter (\<lambda>p. t_who p \<noteq> ?w) (timeouts st)))"
      using assms by (simp add: timers_wf_def distinct_map_filter)
    moreover have "?n \<notin> t_id ` set (filter (\<lambda>p. t_who p \<noteq> ?w) (timeouts st))"
      using old by fastforce
    ultimately show ?thesis by (simp add: f(3) [OF m ns])
  qed
  show ?thesis
    unfolding timers_wf_def
  proof (intro conjI ballI)
    show "distinct (map t_id (timeouts ?st))" by (rule d)
  next
    fix p assume "p \<in> set (timeouts ?st)"
    then consider "p \<in> set (timeouts st)" "t_who p \<noteq> ?w"
      | "p = \<lparr>t_id = ?n, t_due = now + 2000, t_who = ?w\<rparr>"
      by (auto simp: f(3) [OF m ns])
    then have "Map_get (typingTimers ?st) (t_who p) = Some (t_id p) \<and> t_id p < next_timeout ?st"
    proof cases
      case 1
      have "Map_get (typingTimers st) (t_who p) = Some (t_id p)"
        using assms 1(1) by (simp add: timers_wf_def)
      then show ?thesis
        using 1(2) old [OF 1(1)]
        by (simp add: f(2) [OF m ns] f(4) [OF m ns] Map_get_Map_set_other)
    next
      case 2
      then show ?thesis
        by (simp add: f(2) [OF m ns] f(4) [OF m ns] Map_get_Map_set_same)
    qed
    then show "Map_get (typingTimers ?st) (t_who p) = Some (t_id p)"
      and "t_id p < next_timeout ?st" by simp_all
  next
    fix kv assume "kv \<in> set (typingTimers ?st)"
    then have "fst kv \<in> insert ?w (fst ` set (typingTimers st))"
      using Map_set_keys [of "typingTimers st" ?w ?n] by (auto simp: f(2) [OF m ns])
    then consider "fst kv = ?w" | "fst kv \<noteq> ?w" "fst kv \<in> fst ` set (typingTimers st)" by auto
    then show "fst kv \<in> t_who ` set (timeouts ?st)"
    proof cases
      case 1
      then show ?thesis by (simp add: f(3) [OF m ns])
    next
      case 2
      then obtain q where "q \<in> set (timeouts st)" "t_who q = fst kv"
        using assms by (auto simp: timers_wf_def)
      with 2(1) show ?thesis by (auto simp: f(3) [OF m ns] intro: rev_image_eqI)
    qed
  qed
qed

lemma tracked_observed:
  assumes "timers_wf st" and "tracked st who dl T"
  shows "typing_active st T who \<longleftrightarrow> (case dl of None \<Rightarrow> False | Some D \<Rightarrow> T < D)"
proof (cases dl)
  case None
  with assms(2) show ?thesis by (simp add: tracked_def typing_active_def run_timeouts_fields(1))
next
  case (Some D)
  show ?thesis
  proof (cases "who \<in> set (typingUsers st)")
    case False
    with assms(2) Some show ?thesis by (simp add: tracked_def typing_active_def run_timeouts_fields(1))
  next
    case True
    with assms(2) Some obtain p where p: "p \<in> set (timeouts st)" "t_who p = who" "t_due p = D"
      by (auto simp: tracked_def)
    have "who \<in> t_who ` {q \<in> set (timeouts st). t_due q \<le> T} \<longleftrightarrow> D \<le> T"
    proof
      assume "who \<in> t_who ` {q \<in> set (timeouts st). t_due q \<le> T}"
      then obtain q where q: "q \<in> set (timeouts st)" "t_due q \<le> T" "t_who q = who" by auto
      then have "q = p" using timers_wf_unique [OF assms(1) q(1) p(1)] p(2) by simp
      with q p show "D \<le> T" by simp
    next
      assume "D \<le> T"
      with p show "who \<in> t_who ` {q \<in> set (timeouts st). t_due q \<le> T}" by (auto intro: rev_image_eqI)
    qed
    with True Some show ?thesis by (auto simp: typing_active_def run_timeouts_fields(1))
  qed
qed

lemma typing_step_tracked:
  assumes wf: "timers_wf st" and m: "mounted st" and ns: "who \<noteq> self_name clo" and tT: "t \<le> T"
    and tr: "tracked st who dl T"
  shows "tracked (chat_on_typing clo u t (run_timeouts t st)) who
           (if typing_who u = who then Some (t + 2000) else dl) T"
proof -
  let ?st1 = "run_timeouts t st"
  let ?st2 = "chat_on_typing clo u t ?st1"
  have wf1: "timers_wf ?st1" using wf by (rule run_timeouts_wf)
  have m1: "mounted ?st1" using m by (simp add: run_timeouts_fields(5))
  show ?thesis
  proof (cases "typing_who u = who")
    case True
    then have ns': "typing_who u \<noteq> self_name clo" using ns by simp
    note f = chat_on_typing_fields [OF wf1 m1 ns', of t]
    show ?thesis using True by (auto simp: tracked_def f(1) f(3) Set_add_def)
  next
    case False
    have tr1: "tracked ?st1 who dl T"
    proof (cases dl)
      case None
      with tr show ?thesis by (simp add: tracked_def run_timeouts_fields(1))
    next
      case (Some D)
      show ?thesis
      proof (cases "who \<in> set (typingUsers ?st1)")
        case True
        then have inU: "who \<in> set (typingUsers st)"
          and nf: "who \<notin> t_who ` {q \<in> set (timeouts st). t_due q \<le> t}"
          by (simp_all add: run_timeouts_fields(1))
        from inU tr Some obtain p where p: "p \<in> set (timeouts st)" "t_who p = who" "t_due p = D"
          by (auto simp: tracked_def)
        with nf have "\<not> t_due p \<le> t" by (auto intro: rev_image_eqI)
        with p have "p \<in> set (timeouts ?st1)" by (simp add: run_timeouts_fields(3))
        with p True Some show ?thesis by (auto simp: tracked_def)
      next
        case out: False
        show ?thesis
        proof (cases "who \<in> set (typingUsers st)")
          case False
          with tr Some out show ?thesis by (simp add: tracked_def)
        next
          case True
          with tr Some obtain p where p: "p \<in> set (timeouts st)" "t_who p = who" "t_due p = D"
            by (auto simp: tracked_def)
          from True out have "who \<in> t_who ` {q \<in> set (timeouts st). t_due q \<le> t}"
            by (simp add: run_timeouts_fields(1))
          then obtain q where q: "q \<in> set (timeouts st)" "t_due q \<le> t" "t_who q = who" by auto
          then have "q = p" using timers_wf_unique [OF wf q(1) p(1)] p(2) by simp
          with q p tT have "D \<le> T" by simp
          with out Some show ?thesis by (simp add: tracked_def)
        qed
      qed
    qed
    have tr2: "tracked ?st2 who dl T"
    proof (cases "typing_who u = self_name clo")
      case True
      then show ?thesis using tr1 chat_on_typing_ignored [of ?st1 u clo t] by simp
    next
      case ns': False
      note f = chat_on_typing_fields [OF wf1 m1 ns', of t]
      have users: "who \<in> set (typingUsers ?st2) \<longleftrightarrow> who \<in> set (typingUsers ?st1)"
        using False by (auto simp: f(1) Set_add_def)
      have pend: "(\<exists>p \<in> set (timeouts ?st2). t_who p = who \<and> t_due p = D)
                    \<longleftrightarrow> (\<exists>p \<in> set (timeouts ?st1). t_who p = who \<and> t_due p = D)" for D
        using False by (auto simp: f(3))
      show ?thesis using tr1 unfolding tracked_def users pend by simp
    qed
    with False show ?thesis by simp
  qed
qed

lemma typing_run_tracked:
  assumes "timers_wf st" and "mounted st" and "who \<noteq> self_name clo"
    and "\<forall>e \<in> set evs. fst e \<le> T" and "tracked st who dl T"
  shows "timers_wf (chat_typing_run clo st evs) \<and>
         tracked (chat_typing_run clo st evs) who (deadline who dl evs) T"
  using assms
proof (induction evs arbitrary: st dl)
  case Nil
  then show ?case by simp
next
  case (Cons e evs)
  obtain t u where e: "e = (t, u)" by (cases e)
  let ?st = "chat_on_typing clo u t (run_timeouts t st)"
  have tT: "t \<le> T" using Cons.prems(4) e by simp
  have wf: "timers_wf ?st" using Cons.prems(1) by (simp add: run_timeouts_wf chat_on_typing_wf)
  have m: "mounted ?st"
  proof (cases "typing_who u = self_name clo")
    case True
    then show ?thesis
      using Cons.prems(2) chat_on_typing_ignored [of "run_timeouts t st" u clo t]
      by (simp add: run_timeouts_fields(5))
  next
    case False
    show ?thesis
      using chat_on_typing_fields(5) [OF run_timeouts_wf [OF Cons.prems(1)] _ False, of t t]
        Cons.prems(2) by (simp add: run_timeouts_fields(5))
  qed
  have tr: "tracked ?st who (if typing_who u = who then Some (t + 2000) else dl) T"
    using typing_step_tracked [OF Cons.prems(1,2,3) tT Cons.prems(5)] .
  have rest: "\<forall>e \<in> set evs. fst e \<le> T" using Cons.prems(4) by simp
  from Cons.IH [OF wf m Cons.prems(3) rest tr] show ?case by (simp add: e)
qed

lemma deadline_last_typing:
  "deadline who dl evs = (case last_typing who evs of None \<Rightarrow> dl | Some t \<Rightarrow> Some (t + 2000))"
proof (induction evs arbitrary: dl)
  case Nil
  show ?case by (simp add: last_typing_def)
next
  case (Cons e evs)
  obtain t u where e: "e = (t, u)" by (cases e)
  show ?case
    unfolding e deadline.simps Cons.IH
    by (auto simp: last_typing_def split: list.splits)
qed

lemma chat_typing_run_wf: "timers_wf st \<Longrightarrow> timers_wf (chat_typing_run clo st evs)"
proof (induction evs arbitrary: st)
  case Nil
  then show ?case by simp
next
  case (Cons e evs)
  obtain t u where e: "e = (t, u)" by (cases e)
  from Cons.IH [OF chat_on_typing_wf [OF run_timeouts_wf [OF Cons.prems]]]
  show ?case by (simp add: e)
qed

text \<open>Every state the client reaches from its start by typing events is well formed.\<close>

lemma reachable_timers_wf: "timers_wf (chat_typing_run clo chat_init evs)"
  by (rule chat_typing_run_wf) (simp add: timers_wf_def chat_init_def)

text \<open>
  The component with the timer map cancels the pending timeout of a subject and starts
  a new one at each of its typing events. On a mounted client whose timers are well
  formed, for a subject \<open>who\<close> that the handler does not skip (it skips the subject equal
  to \<open>self_name clo\<close>) and that is not shown yet: after any typing events, each processed
  at its arrival time, \<open>who\<close> is shown at time \<open>T\<close> exactly when \<open>who\<close> has a typing event
  among them and the most recent one is less than 2000 ms old. Typing events of other
  subjects change nothing for \<open>who\<close>. Timeouts are taken to fire at their due time.
\<close>

lemma typing_window:
  assumes "timers_wf st" and "mounted st" and "who \<noteq> self_name clo"
    and "who \<notin> set (typingUsers st)" and "\<forall>e \<in> set evs. fst e \<le> T"
  shows "typing_active (chat_typing_run clo st evs) T who
           \<longleftrightarrow> (case last_typing who evs of None \<Rightarrow> False | Some t \<Rightarrow> T < t + 2000)"
proof -
  have tr: "tracked st who None T" using assms(4) by (simp add: tracked_def)
  from typing_run_tracked [OF assms(1,2,3,5) tr]
  have "timers_wf (chat_typing_run clo st evs)"
    and "tracked (chat_typing_run clo st evs) who (deadline who None evs) T" by simp_all
  from tracked_observed [OF this] show ?thesis
    by (simp add: deadline_last_typing split: option.splits)
qed

lemma typing_window_examples:
  "timers_wf chat_init \<and> mounted chat_init \<and> ''bob'' \<noteq> self_name mount_closure \<and>
   ''bob'' \<notin> set (typingUsers chat_init) \<and>
   list_all (\<lambda>e. fst e \<le> 1999) [(0 :: int, Some ''bob'')] \<and>
   list_all (\<lambda>e. fst e \<le> 2999)
     [(0 :: int, Some ''bob''), (500, Some ''carol''), (1000, Some ''bob''), (2600, Some ''carol'')] \<and>
   typing_active (chat_typing_run mount_closure chat_init [(0, Some ''bob'')]) 1999 ''bob'' \<and>
   \<not> typing_active (chat_typing_run mount_closure chat_init [(0, Some ''bob'')]) 2000 ''bob'' \<and>
   \<not> typing_active (chat_typing_run mount_closure chat_init [(0, Some ''bob'')]) 2001 ''bob'' \<and>
   typing_active (chat_typing_run mount_closure chat_init [(0, Some ''bob''), (1000, Some ''bob'')]) 2000 ''bob'' \<and>
   typing_active (chat_typing_run mount_closure chat_init [(0, Some ''bob''), (1000, Some ''bob'')]) 2999 ''bob'' \<and>
   \<not> typing_active (chat_typing_run mount_closure chat_init [(0, Some ''bob''), (1000, Some ''bob'')]) 3000 ''bob'' \<and>
   typing_active (chat_typing_run mount_closure chat_init
      [(0, Some ''bob''), (500, Some ''carol''), (1000, Some ''bob''), (2600, Some ''carol'')]) 2999 ''bob''"
proof -
  have wf: "timers_wf chat_init" by (simp add: timers_wf_def chat_init_def)
  have m: "mounted chat_init" by (simp add: chat_init_def)
  have ns: "''bob'' \<noteq> self_name mount_closure"
    by (simp add: self_name_def mount_closure_def chat_init_def js_or_def)
  have quiet: "''bob'' \<notin> set (typingUsers chat_init)" by (simp add: chat_init_def)
  have who: "typing_who (Some ''bob'') = ''bob''" "typing_who (Some ''carol'') = ''carol''"
    by (simp_all add: typing_who_def js_or_def trim_def white_space_def strip.simps)
  have l1: "last_typing ''bob'' [(0, Some ''bob'')] = Some 0"
    by (simp add: last_typing_def who)
  have l2: "last_typing ''bob'' [(0, Some ''bob''), (1000, Some ''bob'')] = Some 1000"
    by (simp add: last_typing_def who)
  have l3: "last_typing ''bob''
      [(0, Some ''bob''), (500, Some ''carol''), (1000, Some ''bob''), (2600, Some ''carol'')] = Some 1000"
    by (simp add: last_typing_def who)
  from typing_window [OF wf m ns quiet, of "[(0, Some ''bob'')]" 1999]
    typing_window [OF wf m ns quiet, of "[(0, Some ''bob'')]" 2000]
    typing_window [OF wf m ns quiet, of "[(0, Some ''bob'')]" 2001]
    typing_window [OF wf m ns quiet, of "[(0, Some ''bob''), (1000, Some ''bob'')]" 2000]
    typing_window [OF wf m ns quiet, of "[(0, Some ''bob''), (1000, Some ''bob'')]" 2999]
    typing_window [OF wf m ns quiet, of "[(0, Some ''bob''), (1000, Some ''bob'')]" 3000]
    typing_window [OF wf m ns quiet,
      of "[(0, Some ''bob''), (500, Some ''carol''), (1000, Some ''bob''), (2600, Some ''carol'')]" 2999]
  show ?thesis using wf m ns quiet by (simp add: l1 l2 l3)
qed

text \<open>
  C3 says that a new typing fact for a subject before expiry cancels the pending timer
  and restarts the full 2000 ms window, so that with typing facts for \<open>bob\<close> at 0 and at
  1000 \<open>bob\<close> is active until 3000 rather than expiring at 2000. The component without
  the timer map starts a timeout at every typing event and cancels none: the timeout of
  the first event fires at 2000 and removes \<open>bob\<close>, who is active at 1999 and inactive at
  2000, at 2500 and at 2999. After a single event at 0 the component does as C3 says:
  \<open>bob\<close> is active at 1999 and inactive at 2001.
\<close>

theorem typing_uncancelled_expires_early:
  "typing_active (chat_on_typing_uncancelled (Some ''bob'') 0 chat_init) 1999 ''bob'' \<and>
   \<not> typing_active (chat_on_typing_uncancelled (Some ''bob'') 0 chat_init) 2001 ''bob'' \<and>
   typing_active bob_typed_twice 1999 ''bob'' \<and>
   \<not> typing_active bob_typed_twice 2000 ''bob'' \<and>
   \<not> typing_active bob_typed_twice 2500 ''bob'' \<and>
   \<not> typing_active bob_typed_twice 2999 ''bob''"
  by code_simp

section \<open>Live messages and the unseen counter (C9)\<close>

text \<open>
  What holds of the handlers: a live message is appended, and a history event replaces
  the messages and, the scroll box being attached, sets \<open>isAtBottom\<close> and clears the
  counter.
\<close>

lemma chat_on_message_never_counts:
  "unseenCount (chat_on_message mount_closure msg st) = unseenCount st \<and>
   unseenCount (autoscroll_effect (chat_on_message mount_closure msg st)) \<le> unseenCount st"
  by (simp add: chat_on_message_def autoscroll_effect_def mount_closure_def chat_init_def Let_def)

lemma chat_on_message_appends:
  "mounted st \<Longrightarrow> messages (chat_on_message clo msg st) = messages st @ [msg]"
  by (simp add: chat_on_message_def Let_def)

lemma chat_on_message_history_resets:
  "mounted st \<Longrightarrow> scrollRef st \<Longrightarrow>
     messages (chat_on_message_history history st) = (case history of None \<Rightarrow> [] | Some h \<Rightarrow> h) \<and>
     isAtBottom (chat_on_message_history history st) \<and>
     unseenCount (chat_on_message_history history st) = 0"
  by (simp add: chat_on_message_history_def Let_def)

text \<open>
  A handler whose captured \<open>isAtBottom\<close> is the current one, as in the component that
  creates its handlers anew whenever \<open>isAtBottom\<close> changes, counts.
\<close>

lemma chat_on_message_current_closure_counts:
  "mounted st \<Longrightarrow>
   unseenCount (chat_on_message \<lparr>c_isAtBottom = isAtBottom st, c_name = n\<rparr> msg st)
     = (if isAtBottom st then unseenCount st else unseenCount st + 1)"
  by (simp add: chat_on_message_def Let_def)

text \<open>
  C9 fails on the counter. The \<open>message\<close> handler is created once, at mount, and tests the
  \<open>isAtBottom\<close> of that render, which is true; scrolling changes the state, not the
  handler's variable. With the user scrolled up (\<open>isAtBottom = false\<close>), three live
  messages are appended and \<open>unseenCount\<close> is still 0, where the claim has 3.
\<close>

theorem unseen_count_never_incremented:
  "isAtBottom scrolled_up = False \<and>
   unseenCount scrolled_up = 0 \<and>
   unseenCount (fold (\<lambda>msg st. autoscroll_effect (chat_on_message mount_closure msg st))
                  three_messages scrolled_up) = 0 \<and>
   messages (fold (\<lambda>msg st. autoscroll_effect (chat_on_message mount_closure msg st))
                  three_messages scrolled_up) = three_messages \<and>
   isAtBottom (fold (\<lambda>msg st. autoscroll_effect (chat_on_message mount_closure msg st))
                  three_messages scrolled_up) = False"
  by code_simp

end
